theory Spec2Isabelle
  imports Complex_Main "HOL-Library.AList"
begin

section \<open>Configuration (config.ts)\<close>

text \<open>
  JavaScript numbers are modelled as \<open>real\<close> where they carry coordinates or times and
  as \<open>nat\<close> where they are counters, lengths or millisecond delays built from integer
  constants. Rounding and the special values of IEEE arithmetic are outside the model.
\<close>

definition STALE_THRESHOLD_MS :: real where
  "STALE_THRESHOLD_MS = 10000"

definition RECONNECT_MAX_DELAY_MS :: nat where
  "RECONNECT_MAX_DELAY_MS = 10000"

definition RECONNECT_BASE_DELAY_MS :: nat where
  "RECONNECT_BASE_DELAY_MS = 1000"

definition HISTORY_POINTS :: nat where
  "HISTORY_POINTS = 120"

section \<open>Track accumulation (the track hook in src/main.tsx, imported as hooks/useDroneTracks)\<close>

text \<open>
  \<^verbatim>\<open>type TrackPoint = { lat: number; lon: number; t: number }\<close>.
  The fields are prefixed because several source types share the field names.
\<close>

record TrackPoint =
  tp_lat :: real
  tp_lon :: real
  tp_t :: real

type_synonym TrackSegment = "TrackPoint list"

type_synonym DroneTrackState = "string \<rightharpoonup> TrackSegment list"

definition SEGMENT_GAP_SECONDS :: real where
  "SEGMENT_GAP_SECONDS = max 20 (STALE_THRESHOLD_MS / 1000)"

definition MAX_POINTS_PER_DRONE :: nat where
  "MAX_POINTS_PER_DRONE = 800"

text \<open>
  The \<^verbatim>\<open>while\<close> loop of \<^verbatim>\<open>trimSegments\<close>, on the pair of mutable variables
  \<^verbatim>\<open>cloned\<close> and \<^verbatim>\<open>totalPoints\<close>. \<^verbatim>\<open>cloned.shift()\<close> drops the head segment,
  \<^verbatim>\<open>head.slice(overflow)\<close> drops the first \<^verbatim>\<open>overflow\<close> points of it.
\<close>

function trim_loop :: "TrackSegment list \<Rightarrow> nat \<Rightarrow> TrackSegment list" where
  "trim_loop cloned totalPoints =
     (if cloned \<noteq> [] \<and> totalPoints > MAX_POINTS_PER_DRONE then
        (let head = hd cloned;
             overflow = totalPoints - MAX_POINTS_PER_DRONE
         in if length head \<le> overflow
            then trim_loop (tl cloned) (totalPoints - length head)
            else trim_loop (drop overflow head # tl cloned) (totalPoints - overflow))
      else cloned)"
  by pat_completeness auto
termination
  by (relation "measure (\<lambda>(cloned, totalPoints). length cloned + totalPoints)")
     (auto simp: Let_def neq_Nil_conv)

declare trim_loop.simps [simp del]

definition totalPoints_of :: "TrackSegment list \<Rightarrow> nat" where
  "totalPoints_of segments = fold (\<lambda>seg sum. sum + length seg) segments 0"

definition trimSegments :: "TrackSegment list \<Rightarrow> TrackSegment list" where
  "trimSegments segments =
     (let cloned = segments;
          totalPoints = totalPoints_of cloned
      in if totalPoints \<le> MAX_POINTS_PER_DRONE then cloned
         else trim_loop cloned totalPoints)"

definition shouldStartNewSegment :: "TrackPoint option \<Rightarrow> TrackPoint option \<Rightarrow> bool" where
  "shouldStartNewSegment lst nxt =
     (case lst of
        None \<Rightarrow> False
      | Some l \<Rightarrow>
          (case nxt of
             None \<Rightarrow> False
           | Some n \<Rightarrow> \<bar>tp_t n - tp_t l\<bar> > SEGMENT_GAP_SECONDS))"

text \<open>\<^verbatim>\<open>segments[segments.length - 1]\<close>: \<^verbatim>\<open>undefined\<close> on the empty array.\<close>

definition last_opt :: "'a list \<Rightarrow> 'a option" where
  "last_opt xs = (if xs = [] then None else Some (last xs))"

definition segments_of :: "DroneTrackState \<Rightarrow> string \<Rightarrow> TrackSegment list" where
  "segments_of prev droneId = (case prev droneId of None \<Rightarrow> [] | Some segs \<Rightarrow> segs)"

definition lastPoint_of :: "DroneTrackState \<Rightarrow> string \<Rightarrow> TrackPoint option" where
  "lastPoint_of prev droneId =
     (case last_opt (segments_of prev droneId) of
        None \<Rightarrow> None
      | Some latestSegment \<Rightarrow> last_opt latestSegment)"

definition same_point :: "TrackPoint \<Rightarrow> TrackPoint \<Rightarrow> bool" where
  "same_point a b \<longleftrightarrow> tp_lat a = tp_lat b \<and> tp_lon a = tp_lon b \<and> tp_t a = tp_t b"

definition upsertTrack :: "DroneTrackState \<Rightarrow> string \<Rightarrow> TrackPoint \<Rightarrow> DroneTrackState" where
  "upsertTrack prev droneId point =
     (let segments = segments_of prev droneId;
          latestSegment = last_opt segments;
          lastPoint = lastPoint_of prev droneId
      in if (case lastPoint of None \<Rightarrow> False | Some lp \<Rightarrow> same_point lp point) then prev
         else
           (let nextSegments =
                  (case latestSegment of
                     None \<Rightarrow> segments @ [[point]]
                   | Some seg \<Rightarrow>
                       if seg = [] \<or> shouldStartNewSegment lastPoint (Some point)
                       then segments @ [[point]]
                       else butlast segments @ [seg @ [point]])
            in prev(droneId \<mapsto> trimSegments nextSegments)))"

text \<open>
  The track state of the hook starts as the empty object and changes only through
  \<^verbatim>\<open>setTracks((prev) => upsertTrack(prev, id, trackPoint))\<close>; a reachable state is the
  result of a sequence of such updates.
\<close>

definition run_tracks :: "(string \<times> TrackPoint) list \<Rightarrow> DroneTrackState" where
  "run_tracks samples = fold (\<lambda>(droneId, point) prev. upsertTrack prev droneId point) samples Map.empty"

section \<open>Rendering simplification (components/MapPanel.tsx)\<close>

text \<open>
  The body of the \<^verbatim>\<open>for\<close> loop of \<^verbatim>\<open>simplifySegment\<close>: the current point is compared
  with the last point kept so far and pushed unless the two are nearer than \<^verbatim>\<open>minDelta\<close>
  (sum of the absolute latitude and longitude differences).
\<close>

definition dedupe_step :: "real \<Rightarrow> TrackPoint \<Rightarrow> TrackSegment \<Rightarrow> TrackSegment" where
  "dedupe_step minDelta cur deduped =
     (let prev = last deduped
      in if \<bar>tp_lat prev - tp_lat cur\<bar> + \<bar>tp_lon prev - tp_lon cur\<bar> < minDelta
         then deduped
         else deduped @ [cur])"

text \<open>
  \<^verbatim>\<open>simplifySegment(segment, maxPoints = 160, minDelta = 0.00001)\<close>. The loop starts from
  \<^verbatim>\<open>[segment[0]]\<close> and runs over the indices from 1; it is only reached for segments of
  more than two points. \<^verbatim>\<open>Math.ceil(deduped.length / maxPoints)\<close> is the ceiling of the
  quotient; the filter keeps the indices that are multiples of the step, and the last index.
\<close>

definition simplifySegment :: "TrackSegment \<Rightarrow> nat \<Rightarrow> real \<Rightarrow> TrackSegment" where
  "simplifySegment segment maxPoints minDelta =
     (if length segment \<le> 2 then segment
      else
        (let deduped = fold (dedupe_step minDelta) (tl segment) [hd segment]
         in if length deduped \<le> maxPoints then deduped
            else
              (let step = nat \<lceil>real (length deduped) / real maxPoints\<rceil>
               in map snd
                    (filter (\<lambda>(idx, _). idx mod step = 0 \<or> idx = length deduped - 1)
                       (enumerate 0 deduped)))))"

text \<open>The call of the map panel, \<^verbatim>\<open>simplifySegment(segment)\<close>, takes both defaults.\<close>

definition simplifySegment_default :: "TrackSegment \<Rightarrow> TrackSegment" where
  "simplifySegment_default segment = simplifySegment segment 160 (1 / 100000)"

section \<open>Wire types and the normalizer (api/types.ts)\<close>

text \<open>
  An optional field (\<^verbatim>\<open>f?: T\<close>, \<^verbatim>\<open>T | null\<close>) is an \<open>option\<close>: \<open>None\<close> stands for
  \<^verbatim>\<open>undefined\<close> and for \<^verbatim>\<open>null\<close>, which the code never tells apart in these fields
  (it reads them through \<^verbatim>\<open>??\<close> and \<^verbatim>\<open>?.\<close>). Identifiers are optional too, since a
  payload on the wire may lack them. Fields carry a prefix where two source types share
  a field name.
\<close>

record DronePosition =
  pos_lat :: real
  pos_lon :: real
  alt_m :: "real option"

record DroneSummary =
  ds_id :: string
  ds_status :: string
  ds_last_seen_ts :: real
  ds_battery_pct :: real
  ds_flight_mode :: string
  ds_position :: "DronePosition option"
  ds_gps_fix :: "bool option"
  ds_is_emergency :: "bool option"

record RawBattery =
  pct :: "real option"
  voltage_v :: "real option"

record RawFlags =
  gps_lost :: "bool option"
  rc_lost :: "bool option"
  flags_is_emergency :: "bool option"

record RawDerived =
  derived_ground_speed_mps :: "real option"
  derived_climb_rate_mps :: "real option"
  derived_heading_deg :: "real option"

record RawTelemetry =
  raw_id :: "string option"
  raw_status :: "string option"
  raw_last_seen_ts :: "real option"
  raw_source_timestamp :: "real option"
  raw_received_timestamp :: "real option"
  raw_position :: "DronePosition option"
  raw_battery :: "RawBattery option"
  raw_flight_mode :: "string option"
  raw_flags :: "RawFlags option"
  raw_derived :: "RawDerived option"
  raw_version :: "real option"

text \<open>
  What a value without any of these keys reads as: the empty object, an object with other
  keys only, and also a number, a string, a boolean or an array, whose property reads all
  give \<^verbatim>\<open>undefined\<close>.
\<close>

definition absent_raw :: RawTelemetry where
  "absent_raw =
     \<lparr> raw_id = None, raw_status = None, raw_last_seen_ts = None, raw_source_timestamp = None,
       raw_received_timestamp = None, raw_position = None, raw_battery = None,
       raw_flight_mode = None, raw_flags = None, raw_derived = None, raw_version = None \<rparr>"

record Telemetry =
  drone_id :: "string option"
  timestamp :: "real option"
  received_timestamp :: "real option"
  latitude :: "real option"
  longitude :: "real option"
  absolute_altitude_m :: "real option"
  battery_percentage :: "real option"
  flight_mode :: "string option"
  heading_deg :: "real option"
  ground_speed_mps :: "real option"
  climb_rate_mps :: "real option"
  gps_fix :: "bool option"
  is_emergency :: "bool option"
  ingest_source :: "string option"

text \<open>The nullish coalescing operator \<^verbatim>\<open>a ?? b\<close> on optional values.\<close>

definition nullish :: "'a option \<Rightarrow> 'a option \<Rightarrow> 'a option" where
  "nullish a b = (case a of None \<Rightarrow> b | Some x \<Rightarrow> Some x)"

text \<open>Optional chaining \<^verbatim>\<open>a?.f\<close> where \<^verbatim>\<open>f\<close> is itself optional.\<close>

definition chain :: "'a option \<Rightarrow> ('a \<Rightarrow> 'b option) \<Rightarrow> 'b option" where
  "chain a f = (case a of None \<Rightarrow> None | Some x \<Rightarrow> f x)"

definition normalizeTelemetry :: "RawTelemetry \<Rightarrow> Telemetry" where
  "normalizeTelemetry raw =
     (let timestamp = nullish (raw_source_timestamp raw) (raw_last_seen_ts raw);
          receivedTimestamp = nullish (raw_received_timestamp raw) (raw_last_seen_ts raw);
          gpsFix =
            (if chain (raw_flags raw) gps_lost = Some True then Some False
             else if chain (raw_flags raw) gps_lost = Some False then Some True
             else None)
      in \<lparr> drone_id = raw_id raw,
           timestamp = timestamp,
           received_timestamp = receivedTimestamp,
           latitude = map_option pos_lat (raw_position raw),
           longitude = map_option pos_lon (raw_position raw),
           absolute_altitude_m = chain (raw_position raw) alt_m,
           battery_percentage = chain (raw_battery raw) pct,
           flight_mode = raw_flight_mode raw,
           heading_deg = chain (raw_derived raw) derived_heading_deg,
           ground_speed_mps = chain (raw_derived raw) derived_ground_speed_mps,
           climb_rate_mps = chain (raw_derived raw) derived_climb_rate_mps,
           gps_fix = gpsFix,
           is_emergency = chain (raw_flags raw) flags_is_emergency,
           ingest_source = None \<rparr>)"

section \<open>The live-telemetry hook (hooks/useLiveTelemetry.ts)\<close>

datatype StreamState = S_idle | S_connecting | S_open | S_closed

record TelemetryHistoryPoint =
  hp_t :: real
  hp_altitude :: "real option"
  hp_battery :: "real option"

text \<open>
  The text of one stream message, by what \<^verbatim>\<open>JSON.parse(event.data) as RawTelemetry\<close>
  makes of it: text that is not JSON; the JSON value \<^verbatim>\<open>null\<close>; a JSON number, string,
  boolean or array, which the cast passes on unchecked; or an object, read as a
  \<^verbatim>\<open>RawTelemetry\<close>.
\<close>

datatype live_data = L_malformed | L_null | L_primitive | L_raw RawTelemetry

datatype js_error = SyntaxError | TypeError

text \<open>
  The first two statements of the \<^verbatim>\<open>try\<close> block of \<^verbatim>\<open>ws.onmessage\<close>:
  \<^verbatim>\<open>JSON.parse\<close> throws a \<^verbatim>\<open>SyntaxError\<close> on malformed text, and
  \<^verbatim>\<open>normalizeTelemetry(null)\<close> throws a \<^verbatim>\<open>TypeError\<close> at its first property read.
  On any other value \<^verbatim>\<open>normalizeTelemetry\<close> returns: it checks nothing, and every
  property it reads of a number, string, boolean or array is \<^verbatim>\<open>undefined\<close>.
\<close>

definition parse_and_normalize :: "live_data \<Rightarrow> js_error + Telemetry" where
  "parse_and_normalize data =
     (case data of
        L_malformed \<Rightarrow> Inl SyntaxError
      | L_null \<Rightarrow> Inl TypeError
      | L_primitive \<Rightarrow> Inr (normalizeTelemetry absent_raw)
      | L_raw raw \<Rightarrow> Inr (normalizeTelemetry raw))"

text \<open>
  The state of the hook and of one run of its subscription effect: the React state
  (\<^verbatim>\<open>streamState\<close>, \<^verbatim>\<open>wsError\<close>, \<^verbatim>\<open>latestByDrone\<close>, \<^verbatim>\<open>historyByDrone\<close>), the
  refs (\<^verbatim>\<open>retryCountRef\<close>, \<^verbatim>\<open>wsRef\<close>, \<^verbatim>\<open>nowRef\<close>), the effect's local
  \<^verbatim>\<open>cancelled\<close>, and a log of what the code asks of its environment: the entity of every
  \<^verbatim>\<open>new WebSocket\<close> (a socket is named by its position in that log), the delay of
  every \<^verbatim>\<open>setTimeout(connect, delay)\<close>, and the sockets \<^verbatim>\<open>close()\<close> was called on.
\<close>

record live_state =
  streamState :: StreamState
  wsError :: "string option"
  latestByDrone :: "string \<rightharpoonup> Telemetry"
  historyByDrone :: "string \<rightharpoonup> TelemetryHistoryPoint list"
  retryCountRef :: nat
  wsRef :: "nat option"
  nowRef :: real
  cancelled :: bool
  opened :: "string list"
  timers :: "nat list"
  closeCalls :: "nat list"

definition live_init :: "real \<Rightarrow> live_state" where
  "live_init currentTimeMs =
     \<lparr> streamState = S_idle, wsError = None, latestByDrone = Map.empty,
       historyByDrone = Map.empty, retryCountRef = 0, wsRef = None, nowRef = currentTimeMs,
       cancelled = False, opened = [], timers = [], closeCalls = [] \<rparr>"

text \<open>
  \<^verbatim>\<open>Math.min(RECONNECT_MAX_DELAY_MS, RECONNECT_BASE_DELAY_MS * 2 ** (n - 1))\<close>, the delay
  both hooks compute from the retry count \<open>n\<close> they have just incremented.
\<close>

definition reconnect_delay :: "nat \<Rightarrow> nat" where
  "reconnect_delay n = min RECONNECT_MAX_DELAY_MS (RECONNECT_BASE_DELAY_MS * 2 ^ (n - 1))"

text \<open>\<^verbatim>\<open>xs.slice(-n)\<close> for \<open>n \<ge> 0\<close>: the last \<open>n\<close> elements, and all of them when \<open>n = 0\<close>.\<close>

definition slice_last :: "nat \<Rightarrow> 'a list \<Rightarrow> 'a list" where
  "slice_last n xs = (if n = 0 then xs else drop (length xs - n) xs)"

definition connect :: "string \<Rightarrow> live_state \<Rightarrow> live_state" where
  "connect droneId st =
     st\<lparr> streamState := S_connecting,
         wsRef := Some (length (opened st)),
         opened := opened st @ [droneId] \<rparr>"

definition onopen :: "live_state \<Rightarrow> live_state" where
  "onopen st = st\<lparr> retryCountRef := 0, streamState := S_open, wsError := None \<rparr>"

definition history_point :: "real \<Rightarrow> Telemetry \<Rightarrow> TelemetryHistoryPoint" where
  "history_point now message =
     \<lparr> hp_t = (case nullish (timestamp message) (received_timestamp message) of
                  Some ts \<Rightarrow> ts
                | None \<Rightarrow> now / 1000) * 1000,
       hp_altitude = absolute_altitude_m message,
       hp_battery = battery_percentage message \<rparr>"

definition history_of :: "live_state \<Rightarrow> string \<Rightarrow> TelemetryHistoryPoint list" where
  "history_of st droneId = (case historyByDrone st droneId of None \<Rightarrow> [] | Some h \<Rightarrow> h)"

definition onmessage :: "string \<Rightarrow> live_data \<Rightarrow> live_state \<Rightarrow> live_state" where
  "onmessage droneId data st =
     (case parse_and_normalize data of
        Inl err \<Rightarrow> st\<lparr> wsError := Some ''Unable to parse telemetry message'' \<rparr>
      | Inr message \<Rightarrow>
          (let current = history_of st droneId;
               point = history_point (nowRef st) message;
               next = slice_last HISTORY_POINTS (current @ [point])
           in st\<lparr> latestByDrone := (latestByDrone st)(droneId \<mapsto> message),
                  historyByDrone := (historyByDrone st)(droneId \<mapsto> next) \<rparr>))"

definition onerror :: "live_state \<Rightarrow> live_state" where
  "onerror st = st\<lparr> wsError := Some ''WebSocket error'' \<rparr>"

definition onclose :: "live_state \<Rightarrow> live_state" where
  "onclose st =
     (let st1 = st\<lparr> streamState := S_closed \<rparr>
      in if cancelled st1 then st1
         else
           (let st2 = st1\<lparr> retryCountRef := retryCountRef st1 + 1 \<rparr>;
                delay = reconnect_delay (retryCountRef st2)
            in st2\<lparr> timers := timers st2 @ [delay] \<rparr>))"

text \<open>
  The effect body (\<^verbatim>\<open>if (!droneId) return; let cancelled = false; ...; connect()\<close>)
  and its cleanup.
\<close>

definition subscribe :: "string option \<Rightarrow> live_state \<Rightarrow> live_state" where
  "subscribe droneId st =
     (case droneId of
        None \<Rightarrow> st
      | Some d \<Rightarrow> if d = [] then st else connect d (st\<lparr> cancelled := False \<rparr>))"

definition cleanup :: "live_state \<Rightarrow> live_state" where
  "cleanup st =
     (let st1 = st\<lparr> cancelled := True \<rparr>
      in case wsRef st1 of
           None \<Rightarrow> st1
         | Some ws \<Rightarrow> st1\<lparr> closeCalls := closeCalls st1 @ [ws] \<rparr>)"

text \<open>
  What the environment can do to a running subscription: deliver a socket event, fire a
  timer set by \<^verbatim>\<open>setTimeout(connect, delay)\<close> (its callback is \<^verbatim>\<open>connect\<close> itself),
  run the effect's cleanup, or re-render the hook with a new \<^verbatim>\<open>currentTimeMs\<close>.
\<close>

datatype live_event =
    E_open
  | E_message live_data
  | E_error
  | E_close
  | E_timer
  | E_cleanup
  | E_now real

fun live_step :: "string \<Rightarrow> live_event \<Rightarrow> live_state \<Rightarrow> live_state" where
  "live_step droneId E_open st = onopen st"
| "live_step droneId (E_message data) st = onmessage droneId data st"
| "live_step droneId E_error st = onerror st"
| "live_step droneId E_close st = onclose st"
| "live_step droneId E_timer st = connect droneId st"
| "live_step droneId E_cleanup st = cleanup st"
| "live_step droneId (E_now currentTimeMs) st = st\<lparr> nowRef := currentTimeMs \<rparr>"

definition live_run :: "string \<Rightarrow> live_event list \<Rightarrow> live_state \<Rightarrow> live_state" where
  "live_run droneId events st = fold (live_step droneId) events st"

text \<open>What the hook returns: the derived values of its last lines.\<close>

definition truthy :: "real option \<Rightarrow> bool" where
  "truthy v = (case v of None \<Rightarrow> False | Some x \<Rightarrow> x \<noteq> 0)"

definition lastUpdateMs :: "Telemetry option \<Rightarrow> real option" where
  "lastUpdateMs telemetry =
     (if truthy (chain telemetry timestamp)
      then map_option (\<lambda>ts. ts * 1000) (chain telemetry timestamp)
      else if truthy (chain telemetry received_timestamp)
      then map_option (\<lambda>ts. ts * 1000) (chain telemetry received_timestamp)
      else None)"

definition isStale :: "real \<Rightarrow> real option \<Rightarrow> bool" where
  "isStale currentTimeMs lastUpdate =
     (case lastUpdate of
        Some ms \<Rightarrow> currentTimeMs - ms > STALE_THRESHOLD_MS
      | None \<Rightarrow> True)"

definition seededHistory :: "TelemetryHistoryPoint list \<Rightarrow> Telemetry option \<Rightarrow> TelemetryHistoryPoint list" where
  "seededHistory history polled =
     (if history \<noteq> [] then history
      else case polled of
             Some d \<Rightarrow>
               [\<lparr> hp_t = (case nullish (timestamp d) (received_timestamp d) of
                            Some ts \<Rightarrow> ts | None \<Rightarrow> 0) * 1000,
                   hp_altitude = absolute_altitude_m d,
                   hp_battery = battery_percentage d \<rparr>]
           | None \<Rightarrow> [])"

record UseLiveTelemetryResult =
  res_telemetry :: "Telemetry option"
  res_history :: "TelemetryHistoryPoint list"
  res_streamState :: StreamState
  res_wsError :: "string option"
  res_lastUpdateMs :: "real option"
  res_isStale :: bool

text \<open>
  The value returned for the observed entity, the current time and the data of the latest
  poll (\<^verbatim>\<open>latestQuery.data\<close>).
\<close>

definition useLiveTelemetry_result ::
  "string option \<Rightarrow> real \<Rightarrow> Telemetry option \<Rightarrow> live_state \<Rightarrow> UseLiveTelemetryResult" where
  "useLiveTelemetry_result droneId currentTimeMs polled st =
     (let latest = chain droneId (latestByDrone st);
          history = (case droneId of None \<Rightarrow> [] | Some d \<Rightarrow> history_of st d);
          telemetry = nullish latest polled
      in \<lparr> res_telemetry = telemetry,
           res_history = seededHistory history polled,
           res_streamState = streamState st,
           res_wsError = wsError st,
           res_lastUpdateMs = lastUpdateMs telemetry,
           res_isStale = isStale currentTimeMs (lastUpdateMs telemetry) \<rparr>)"

section \<open>The stream connections of the track hook (\<^verbatim>\<open>useDroneTracks\<close> in src/main.tsx)\<close>

text \<open>
  \<^verbatim>\<open>toTrackPoint\<close>. Its second argument here is \<^verbatim>\<open>(message as any)?.position\<close>, the
  \<^verbatim>\<open>position\<close> key of the message object, which the \<^verbatim>\<open>Telemetry\<close> type does not
  declare. A coordinate is a number exactly when it is present.
\<close>

definition toTrackPoint :: "Telemetry \<Rightarrow> DronePosition option \<Rightarrow> real \<Rightarrow> TrackPoint option" where
  "toTrackPoint message position nowSeconds =
     (let lat = nullish (latitude message) (map_option pos_lat position);
          lon = nullish (longitude message) (map_option pos_lon position)
      in case lat of
           None \<Rightarrow> None
         | Some la \<Rightarrow>
             (case lon of
                None \<Rightarrow> None
              | Some lo \<Rightarrow>
                  Some \<lparr> tp_lat = la, tp_lon = lo,
                         tp_t = (case nullish (timestamp message) (received_timestamp message) of
                                   Some ts \<Rightarrow> ts
                                 | None \<Rightarrow> nowSeconds) \<rparr>))"

text \<open>
  A parsed stream message, by the tests \<^verbatim>\<open>normalizeTelemetryMessage\<close> makes on it:
  a value that is falsy or not an object; an object with one of the keys \<^verbatim>\<open>latitude\<close>,
  \<^verbatim>\<open>longitude\<close>, \<^verbatim>\<open>drone_id\<close>, read as a \<^verbatim>\<open>Telemetry\<close> (given with its \<^verbatim>\<open>id\<close> and
  \<^verbatim>\<open>position\<close> keys, which the handler reads too); any other object (an array is
  one), read as a \<^verbatim>\<open>RawTelemetry\<close>.
\<close>

datatype track_payload =
    T_nonobject
  | T_canonical Telemetry "string option" "DronePosition option"
  | T_raw RawTelemetry

definition normalizeTelemetryMessage :: "track_payload \<Rightarrow> Telemetry option" where
  "normalizeTelemetryMessage payload =
     (case payload of
        T_nonobject \<Rightarrow> None
      | T_canonical candidate i p \<Rightarrow> Some candidate
      | T_raw raw \<Rightarrow> Some (normalizeTelemetry raw))"

text \<open>\<^verbatim>\<open>(parsed as any)?.id\<close> and \<^verbatim>\<open>(message as any)?.position\<close>.\<close>

definition parsed_id :: "track_payload \<Rightarrow> string option" where
  "parsed_id payload =
     (case payload of
        T_nonobject \<Rightarrow> None
      | T_canonical candidate i p \<Rightarrow> i
      | T_raw raw \<Rightarrow> raw_id raw)"

definition message_position :: "track_payload \<Rightarrow> DronePosition option" where
  "message_position payload =
     (case payload of
        T_nonobject \<Rightarrow> None
      | T_canonical candidate i p \<Rightarrow> p
      | T_raw raw \<Rightarrow> None)"

datatype ReadyState = CONNECTING | OPEN | CLOSING | CLOSED

text \<open>
  The state of the hook: the React state (\<^verbatim>\<open>tracks\<close>, \<^verbatim>\<open>lastPoints\<close>), the refs
  (\<^verbatim>\<open>socketsRef\<close>, an object from entity to socket or \<^verbatim>\<open>null\<close>, kept as an association
  list in insertion order; \<^verbatim>\<open>retriesRef\<close>; \<^verbatim>\<open>activeIdsRef\<close>, a set kept as a list
  without repetitions), the \<^verbatim>\<open>readyState\<close> of every socket created so far (a socket is
  named by its position in that list), and a log of the entity of every
  \<^verbatim>\<open>new WebSocket\<close> and of the entity and delay of every \<^verbatim>\<open>setTimeout\<close>.
\<close>

record tracks_state =
  tracks :: DroneTrackState
  lastPoints :: "string \<rightharpoonup> TrackPoint"
  socketsRef :: "(string \<times> nat option) list"
  retriesRef :: "string \<rightharpoonup> nat"
  activeIdsRef :: "string list"
  readyStates :: "ReadyState list"
  sockets_opened :: "string list"
  timers_set :: "(string \<times> nat) list"

definition tracks_init :: tracks_state where
  "tracks_init =
     \<lparr> tracks = Map.empty, lastPoints = Map.empty, socketsRef = [], retriesRef = Map.empty,
       activeIdsRef = [], readyStates = [], sockets_opened = [], timers_set = [] \<rparr>"

text \<open>\<^verbatim>\<open>ws.close()\<close>: a socket that is connecting or open starts closing.\<close>

definition close_socket :: "nat \<Rightarrow> tracks_state \<Rightarrow> tracks_state" where
  "close_socket ws st =
     (if ws < length (readyStates st)
         \<and> (readyStates st ! ws = CONNECTING \<or> readyStates st ! ws = OPEN)
      then st\<lparr> readyStates := (readyStates st)[ws := CLOSING] \<rparr>
      else st)"

text \<open>The first two lines of \<^verbatim>\<open>connect\<close>; the handlers it installs follow.\<close>

definition tracks_connect :: "string \<Rightarrow> tracks_state \<Rightarrow> tracks_state" where
  "tracks_connect droneId st =
     st\<lparr> socketsRef := AList.update droneId (Some (length (readyStates st))) (socketsRef st),
         readyStates := readyStates st @ [CONNECTING],
         sockets_opened := sockets_opened st @ [droneId] \<rparr>"

definition tracks_onopen :: "string \<Rightarrow> tracks_state \<Rightarrow> tracks_state" where
  "tracks_onopen droneId st = st\<lparr> retriesRef := (retriesRef st)(droneId \<mapsto> 0) \<rparr>"

text \<open>
  \<^verbatim>\<open>ws.onmessage\<close>, given \<^verbatim>\<open>Date.now() / 1000\<close> and what \<^verbatim>\<open>JSON.parse(event.data)\<close>
  returns (\<open>None\<close> when it throws: the \<^verbatim>\<open>catch\<close> block is empty).
\<close>

definition tracks_onmessage ::
  "string \<Rightarrow> real \<Rightarrow> track_payload option \<Rightarrow> tracks_state \<Rightarrow> tracks_state" where
  "tracks_onmessage droneId nowSeconds data st =
     (case data of
        None \<Rightarrow> st
      | Some parsed \<Rightarrow>
          (case normalizeTelemetryMessage parsed of
             None \<Rightarrow> st
           | Some telemetry \<Rightarrow>
               (let ident = (case nullish (nullish (drone_id telemetry) (parsed_id parsed)) (Some droneId) of
                               Some i \<Rightarrow> i | None \<Rightarrow> droneId);
                    trackPoint = toTrackPoint telemetry (message_position parsed) nowSeconds
                in case trackPoint of
                     None \<Rightarrow> st
                   | Some tp \<Rightarrow>
                       if ident = [] then st
                       else st\<lparr> tracks := upsertTrack (tracks st) ident tp,
                               lastPoints :=
                                 (case lastPoints st ident of
                                    None \<Rightarrow> (lastPoints st)(ident \<mapsto> tp)
                                  | Some current \<Rightarrow>
                                      if same_point current tp then lastPoints st
                                      else (lastPoints st)(ident \<mapsto> tp)) \<rparr>)))"

definition tracks_onerror :: "nat \<Rightarrow> tracks_state \<Rightarrow> tracks_state" where
  "tracks_onerror ws st = close_socket ws st"

definition tracks_onclose :: "string \<Rightarrow> tracks_state \<Rightarrow> tracks_state" where
  "tracks_onclose droneId st =
     (let st1 = st\<lparr> socketsRef := AList.update droneId None (socketsRef st) \<rparr>
      in if droneId \<notin> set (activeIdsRef st1) then st1
         else
           (let attempt = (case retriesRef st1 droneId of None \<Rightarrow> 0 | Some n \<Rightarrow> n) + 1;
                st2 = st1\<lparr> retriesRef := (retriesRef st1)(droneId \<mapsto> attempt) \<rparr>;
                delay = reconnect_delay attempt
            in st2\<lparr> timers_set := timers_set st2 @ [(droneId, delay)] \<rparr>))"

text \<open>The callback given to \<^verbatim>\<open>window.setTimeout\<close> in \<^verbatim>\<open>ws.onclose\<close>.\<close>

definition tracks_ontimer :: "string \<Rightarrow> tracks_state \<Rightarrow> tracks_state" where
  "tracks_ontimer droneId st =
     (if droneId \<in> set (activeIdsRef st) then tracks_connect droneId st else st)"

text \<open>
  The effect that runs when the list of drones changes: it resets the active set, connects
  every active entity that has no socket connecting or open, and closes and forgets the
  sockets of the entities that are no longer active.
\<close>

definition ensure_connected :: "string \<Rightarrow> tracks_state \<Rightarrow> tracks_state" where
  "ensure_connected ident st =
     (case map_of (socketsRef st) ident of
        Some (Some existing) \<Rightarrow>
          if existing < length (readyStates st)
             \<and> readyStates st ! existing \<noteq> CLOSED \<and> readyStates st ! existing \<noteq> CLOSING
          then st
          else tracks_connect ident st
      | _ \<Rightarrow> tracks_connect ident st)"

definition drop_inactive :: "string \<times> nat option \<Rightarrow> tracks_state \<Rightarrow> tracks_state" where
  "drop_inactive entry st =
     (case entry of
        (ident, Some socket) \<Rightarrow>
          if ident \<notin> set (activeIdsRef st)
          then (let st1 = close_socket socket st
                in st1\<lparr> socketsRef := AList.delete ident (socketsRef st1),
                        retriesRef := (retriesRef st1)(ident := None) \<rparr>)
          else st
      | (ident, None) \<Rightarrow> st)"

text \<open>\<^verbatim>\<open>new Set(xs)\<close>: the elements in the order of their first occurrence.\<close>

definition js_set :: "'a list \<Rightarrow> 'a list" where
  "js_set xs = rev (remdups (rev xs))"

definition sync_drones :: "DroneSummary list \<Rightarrow> tracks_state \<Rightarrow> tracks_state" where
  "sync_drones drones st =
     (let active = js_set (map ds_id (filter (\<lambda>d. ds_status d \<noteq> ''offline'') drones));
          st1 = st\<lparr> activeIdsRef := active \<rparr>;
          st2 = fold ensure_connected (activeIdsRef st1) st1
      in fold drop_inactive (socketsRef st2) st2)"

text \<open>The cleanup of the hook: the active set is emptied and every socket closed.\<close>

definition close_entry :: "string \<times> nat option \<Rightarrow> tracks_state \<Rightarrow> tracks_state" where
  "close_entry entry st = (case snd entry of None \<Rightarrow> st | Some socket \<Rightarrow> close_socket socket st)"

definition tracks_unmount :: "tracks_state \<Rightarrow> tracks_state" where
  "tracks_unmount st =
     (let st1 = st\<lparr> activeIdsRef := [] \<rparr>
      in fold close_entry (socketsRef st1) st1)"

text \<open>
  What the environment can do: deliver an event of a socket (the handlers of socket
  \<open>ws\<close> are closed over the entity it was opened for), fire a reconnect timer of an
  entity, re-run the effect with a new list of drones, or unmount the hook. An event of a
  socket moves its \<^verbatim>\<open>readyState\<close> before the handler runs.
\<close>

datatype tracks_event =
    T_open nat
  | T_message nat real "track_payload option"
  | T_error nat
  | T_close nat
  | T_timer string
  | T_sync "DroneSummary list"
  | T_unmount

definition entity_of :: "tracks_state \<Rightarrow> nat \<Rightarrow> string option" where
  "entity_of st ws = (if ws < length (sockets_opened st) then Some (sockets_opened st ! ws) else None)"

definition set_ready :: "nat \<Rightarrow> ReadyState \<Rightarrow> tracks_state \<Rightarrow> tracks_state" where
  "set_ready ws r st = st\<lparr> readyStates := (readyStates st)[ws := r] \<rparr>"

fun tracks_step :: "tracks_event \<Rightarrow> tracks_state \<Rightarrow> tracks_state" where
  "tracks_step (T_open ws) st =
     (case entity_of st ws of
        None \<Rightarrow> st
      | Some droneId \<Rightarrow> tracks_onopen droneId (set_ready ws OPEN st))"
| "tracks_step (T_message ws nowSeconds data) st =
     (case entity_of st ws of
        None \<Rightarrow> st
      | Some droneId \<Rightarrow> tracks_onmessage droneId nowSeconds data st)"
| "tracks_step (T_error ws) st =
     (case entity_of st ws of
        None \<Rightarrow> st
      | Some droneId \<Rightarrow> tracks_onerror ws st)"
| "tracks_step (T_close ws) st =
     (case entity_of st ws of
        None \<Rightarrow> st
      | Some droneId \<Rightarrow> tracks_onclose droneId (set_ready ws CLOSED st))"
| "tracks_step (T_timer droneId) st = tracks_ontimer droneId st"
| "tracks_step (T_sync drones) st = sync_drones drones st"
| "tracks_step T_unmount st = tracks_unmount st"

definition tracks_run :: "tracks_event list \<Rightarrow> tracks_state \<Rightarrow> tracks_state" where
  "tracks_run events st = fold tracks_step events st"

section \<open>Specification vocabulary\<close>

subsection \<open>Track accumulation\<close>

text \<open>
  What trimming amounts to: the first \<open>n\<close> points of the concatenated segments go, a segment
  that loses all its points goes with them, and a segment cut in the middle keeps its tail.
\<close>

fun drop_points :: "nat \<Rightarrow> 'a list list \<Rightarrow> 'a list list" where
  "drop_points n [] = []"
| "drop_points n (s # ss) =
     (if n = 0 then s # ss
      else if length s \<le> n then drop_points (n - length s) ss
      else drop n s # ss)"

text \<open>Consecutive points of a segment are at most the segment gap apart in time.\<close>

definition gaps_within :: "TrackSegment \<Rightarrow> bool" where
  "gaps_within seg = successively (\<lambda>p1 p2. \<bar>tp_t p2 - tp_t p1\<bar> \<le> SEGMENT_GAP_SECONDS) seg"

text \<open>Consecutive points of a segment have non-decreasing times.\<close>

definition time_monotone :: "TrackSegment \<Rightarrow> bool" where
  "time_monotone seg = successively (\<lambda>p1 p2. tp_t p1 \<le> tp_t p2) seg"

text \<open>The samples of each entity arrive in non-decreasing time order.\<close>

definition ordered_arrivals :: "(string \<times> TrackPoint) list \<Rightarrow> bool" where
  "ordered_arrivals samples =
     sorted_wrt (\<lambda>a b. fst a = fst b \<longrightarrow> tp_t (snd a) \<le> tp_t (snd b)) samples"

text \<open>The two ways \<open>upsertTrack\<close> builds \<^verbatim>\<open>nextSegments\<close>.\<close>

definition pushed :: "TrackSegment list \<Rightarrow> TrackPoint \<Rightarrow> TrackSegment list" where
  "pushed segments point = segments @ [[point]]"

definition extended :: "TrackSegment list \<Rightarrow> TrackPoint \<Rightarrow> TrackSegment list" where
  "extended segments point = butlast segments @ [last segments @ [point]]"

definition all_segments :: "(TrackSegment \<Rightarrow> bool) \<Rightarrow> DroneTrackState \<Rightarrow> bool" where
  "all_segments P st = (\<forall>d. \<forall>seg\<in>set (segments_of st d). P seg)"

definition total_bounded :: "DroneTrackState \<Rightarrow> bool" where
  "total_bounded st = (\<forall>d. totalPoints_of (segments_of st d) \<le> MAX_POINTS_PER_DRONE)"

definition by_time :: "TrackPoint \<Rightarrow> TrackPoint \<Rightarrow> bool" where
  "by_time p1 p2 \<longleftrightarrow> tp_t p1 \<le> tp_t p2"

text \<open>
  All recorded points of every entity are in time order and not later than any sample of
  that entity still to come.
\<close>

definition chrono :: "(string \<times> TrackPoint) list \<Rightarrow> DroneTrackState \<Rightarrow> bool" where
  "chrono pending st =
     (\<forall>d. sorted_wrt by_time (concat (segments_of st d))
        \<and> (\<forall>q\<in>set (concat (segments_of st d)). \<forall>s\<in>set pending. fst s = d \<longrightarrow> by_time q (snd s)))"

text \<open>Concrete points and segments for the worked examples.\<close>

definition ex_p0 :: TrackPoint where
  "ex_p0 = \<lparr>tp_lat = 0, tp_lon = 0, tp_t = 0\<rparr>"

definition ex_p5 :: TrackPoint where
  "ex_p5 = \<lparr>tp_lat = 1, tp_lon = 1, tp_t = 5\<rparr>"

definition ex_p40 :: TrackPoint where
  "ex_p40 = \<lparr>tp_lat = 2, tp_lon = 2, tp_t = 40\<rparr>"

definition ex_q5 :: TrackPoint where
  "ex_q5 = \<lparr>tp_lat = 0, tp_lon = 0, tp_t = 5\<rparr>"

definition ex_q0 :: TrackPoint where
  "ex_q0 = \<lparr>tp_lat = 1, tp_lon = 1, tp_t = 0\<rparr>"

definition ex_long :: "TrackSegment list" where
  "ex_long = [replicate 500 ex_p0, replicate 301 ex_p5]"

subsection \<open>Rendering simplification\<close>

text \<open>Two points nearer than \<open>minDelta\<close>, in the measure the dedupe loop uses.\<close>

definition near :: "real \<Rightarrow> TrackPoint \<Rightarrow> TrackPoint \<Rightarrow> bool" where
  "near minDelta p q \<longleftrightarrow> \<bar>tp_lat p - tp_lat q\<bar> + \<bar>tp_lon p - tp_lon q\<bar> < minDelta"

text \<open>Concrete points for the worked examples.\<close>

definition ex_a :: TrackPoint where
  "ex_a = \<lparr>tp_lat = 0, tp_lon = 0, tp_t = 0\<rparr>"

definition ex_b :: TrackPoint where
  "ex_b = \<lparr>tp_lat = 1, tp_lon = 1, tp_t = 1\<rparr>"

definition ex_c :: TrackPoint where
  "ex_c = \<lparr>tp_lat = 1000001 / 1000000, tp_lon = 1, tp_t = 2\<rparr>"

definition ex_n :: "nat \<Rightarrow> TrackPoint" where
  "ex_n k = \<lparr>tp_lat = real k, tp_lon = 0, tp_t = real k\<rparr>"

subsection \<open>The live-telemetry hook\<close>

text \<open>A polled sample whose event timestamp is zero and whose receipt timestamp is absent.\<close>

definition ex_tm0 :: Telemetry where
  "ex_tm0 = \<lparr> drone_id = Some ''D1'', timestamp = Some 0, received_timestamp = None,
     latitude = None, longitude = None, absolute_altitude_m = None, battery_percentage = Some 0,
     flight_mode = None, heading_deg = None, ground_speed_mps = None, climb_rate_mps = None,
     gps_fix = None, is_emergency = None, ingest_source = None \<rparr>"

text \<open>
  The history points of the samples a run of events delivers and the handler accepts, in
  arrival order; the second argument is the value of \<^verbatim>\<open>nowRef\<close> at the start.
\<close>

fun accepted_points :: "live_event list \<Rightarrow> real \<Rightarrow> TelemetryHistoryPoint list" where
  "accepted_points [] now = []"
| "accepted_points (E_now currentTimeMs # events) now = accepted_points events currentTimeMs"
| "accepted_points (E_message data # events) now =
     (case parse_and_normalize data of
        Inl err \<Rightarrow> accepted_points events now
      | Inr message \<Rightarrow> history_point now message # accepted_points events now)"
| "accepted_points (ev # events) now = accepted_points events now"

text \<open>The last \<open>n\<close> elements of a list, in their order.\<close>

definition most_recent :: "nat \<Rightarrow> 'a list \<Rightarrow> 'a list" where
  "most_recent n xs = drop (length xs - n) xs"

subsection \<open>Reconnection\<close>

text \<open>\<^verbatim>\<open>retriesRef.current[droneId] ?? 0\<close>, and the delays of the timers set for an entity.\<close>

definition retry_of :: "tracks_state \<Rightarrow> string \<Rightarrow> nat" where
  "retry_of st droneId = (case retriesRef st droneId of None \<Rightarrow> 0 | Some n \<Rightarrow> n)"

definition delays_for :: "string \<Rightarrow> tracks_state \<Rightarrow> nat list" where
  "delays_for droneId st = map snd (filter (\<lambda>e. fst e = droneId) (timers_set st))"

text \<open>A close event of a socket that was opened for the entity.\<close>

definition is_close_of :: "tracks_state \<Rightarrow> string \<Rightarrow> tracks_event \<Rightarrow> bool" where
  "is_close_of st droneId ev =
     (case ev of T_close ws \<Rightarrow> entity_of st ws = Some droneId | _ \<Rightarrow> False)"

text \<open>Concrete drones and event runs for the worked examples.\<close>

definition ex_drone :: DroneSummary where
  "ex_drone = \<lparr> ds_id = ''D1'', ds_status = ''online'', ds_last_seen_ts = 0, ds_battery_pct = 50,
     ds_flight_mode = ''AUTO'', ds_position = None, ds_gps_fix = None, ds_is_emergency = None \<rparr>"

definition ex_offline :: DroneSummary where
  "ex_offline = \<lparr> ds_id = ''D1'', ds_status = ''offline'', ds_last_seen_ts = 0, ds_battery_pct = 50,
     ds_flight_mode = ''AUTO'', ds_position = None, ds_gps_fix = None, ds_is_emergency = None \<rparr>"

text \<open>The entities the effect of the track hook makes active: those not offline.\<close>

definition active_ids :: "DroneSummary list \<Rightarrow> string list" where
  "active_ids drones = map ds_id (filter (\<lambda>d. ds_status d \<noteq> ''offline'') drones)"

subsection \<open>Messages that fail to parse or normalize\<close>



text \<open>A state of the live-telemetry hook with its \<^verbatim>\<open>wsError\<close> blanked.\<close>

definition but_wsError :: "live_state \<Rightarrow> live_state" where
  "but_wsError st = st\<lparr> wsError := None \<rparr>"


subsection \<open>Exponential backoff\<close>

text \<open>
  The delays a run of events of the live-telemetry hook is to schedule, told from the
  events alone: \<open>n\<close> counts the closes since the last open, a close schedules
  \<open>min 10000 (1000 * 2 ^ n)\<close> (attempt \<open>n + 1\<close>) unless the subscription has been cleaned
  up, and an open starts the count again.
\<close>

fun backoff_schedule :: "nat \<Rightarrow> bool \<Rightarrow> live_event list \<Rightarrow> nat list" where
  "backoff_schedule n stopped [] = []"
| "backoff_schedule n stopped (E_open # events) = backoff_schedule 0 stopped events"
| "backoff_schedule n stopped (E_close # events) =
     (if stopped then backoff_schedule n stopped events
      else min 10000 (1000 * 2 ^ n) # backoff_schedule (Suc n) stopped events)"
| "backoff_schedule n stopped (E_cleanup # events) = backoff_schedule n True events"
| "backoff_schedule n stopped (ev # events) = backoff_schedule n stopped events"

text \<open>
  A run of events of the live-telemetry subscription in which no connection opens and the
  effect is not cleaned up: every close in it is one more consecutive failure.
\<close>

definition failure_run :: "live_event list \<Rightarrow> bool" where
  "failure_run events = list_all (\<lambda>ev. ev \<noteq> E_open \<and> ev \<noteq> E_cleanup) events"

text \<open>
  For the track hook the entity of a socket event depends on the state (the socket's
  position in the log of opened sockets), so a run of consecutive failures of an entity
  is described along the run: no socket of the entity opens, every new drone list still
  holds the entity as active, and the hook is not unmounted; its closes are the close
  events of the entity's sockets.
\<close>

definition keeps_failing :: "tracks_state \<Rightarrow> string \<Rightarrow> tracks_event \<Rightarrow> bool" where
  "keeps_failing st droneId ev =
     (case ev of
        T_open ws \<Rightarrow> entity_of st ws \<noteq> Some droneId
      | T_sync drones \<Rightarrow> droneId \<in> set (active_ids drones)
      | T_unmount \<Rightarrow> False
      | _ \<Rightarrow> True)"

fun failures_of :: "string \<Rightarrow> tracks_event list \<Rightarrow> tracks_state \<Rightarrow> bool" where
  "failures_of droneId [] st = True"
| "failures_of droneId (ev # events) st =
     (keeps_failing st droneId ev \<and> failures_of droneId events (tracks_step ev st))"

fun closes_of :: "string \<Rightarrow> tracks_event list \<Rightarrow> tracks_state \<Rightarrow> nat" where
  "closes_of droneId [] st = 0"
| "closes_of droneId (ev # events) st =
     (if is_close_of st droneId ev then 1 else 0) + closes_of droneId events (tracks_step ev st)"

text \<open>Event runs for the worked examples.\<close>

definition ex_live_failures :: "live_event list" where
  "ex_live_failures =
     [E_close, E_timer, E_close, E_timer, E_close, E_timer, E_close, E_timer, E_close, E_timer, E_close]"

definition ex_tracks_failures :: "tracks_event list" where
  "ex_tracks_failures =
     [T_close 0, T_timer ''D1'', T_error 1, T_sync [ex_drone], T_close 1, T_timer ''D1'', T_close 2]"

text \<open>
  Three failures while entity D1 is observed, then the observed entity changes to D2 and
  its first connection fails.
\<close>

definition ex_switch :: live_state where
  "ex_switch =
     live_run ''D2'' [E_close]
       (subscribe (Some ''D2'')
          (live_run ''D1'' [E_close, E_timer, E_close, E_timer, E_close, E_cleanup]
             (subscribe (Some ''D1'') (live_init 0))))"

text \<open>
  Two runs of the track hook in which the entity fails, goes offline, comes back and
  fails again; in the second the reconnect timer fires before the entity goes offline.
\<close>

definition ex_kept :: "tracks_event list" where
  "ex_kept = [T_sync [ex_drone], T_close 0, T_sync [ex_offline], T_sync [ex_drone], T_close 1]"

definition ex_discarded :: "tracks_event list" where
  "ex_discarded =
     [T_sync [ex_drone], T_close 0, T_timer ''D1'', T_sync [ex_offline], T_close 1,
      T_sync [ex_drone], T_close 2]"

section \<open>Track accumulation: trimming and segment invariants\<close>

lemma totalPoints_of_sum: "totalPoints_of segs = sum_list (map length segs)"
proof -
  have "fold (\<lambda>seg sum. sum + length seg) segs a = a + sum_list (map length segs)" for a
    by (induction segs arbitrary: a) auto
  then show ?thesis by (simp add: totalPoints_of_def)
qed

lemma totalPoints_of_simps [simp]:
  "totalPoints_of [] = 0"
  "totalPoints_of (s # ss) = length s + totalPoints_of ss"
  "totalPoints_of (xs @ ys) = totalPoints_of xs + totalPoints_of ys"
  by (simp_all add: totalPoints_of_sum)

lemma totalPoints_of_concat: "totalPoints_of segs = length (concat segs)"
  by (simp add: totalPoints_of_sum length_concat)

lemma trim_loop_drop_points:
  "totalPoints = totalPoints_of cloned \<Longrightarrow>
   trim_loop cloned totalPoints = drop_points (totalPoints - MAX_POINTS_PER_DRONE) cloned"
proof (induction cloned totalPoints rule: trim_loop.induct)
  case (1 cloned totalPoints)
  show ?case
  proof (cases cloned)
    case Nil
    then show ?thesis by (simp add: trim_loop.simps)
  next
    case (Cons head rest)
    show ?thesis
    proof (cases "totalPoints > MAX_POINTS_PER_DRONE")
      case False
      then show ?thesis using Cons by (simp add: trim_loop.simps)
    next
      case True
      let ?ov = "totalPoints - MAX_POINTS_PER_DRONE"
      show ?thesis
      proof (cases "length head \<le> ?ov")
        case le: True
        have "trim_loop (tl cloned) (totalPoints - length head)
              = drop_points (totalPoints - length head - MAX_POINTS_PER_DRONE) (tl cloned)"
          using "1.IH"(1)[OF _ refl refl] True le Cons "1.prems" by simp
        then show ?thesis
          using True le Cons by (subst trim_loop.simps) (simp add: Let_def add.commute)
      next
        case gt: False
        have tot: "totalPoints - ?ov = MAX_POINTS_PER_DRONE" using True by simp
        have "trim_loop (drop ?ov head # tl cloned) (totalPoints - ?ov) = drop ?ov head # tl cloned"
          by (subst trim_loop.simps) (simp add: tot)
        then show ?thesis
          using True gt Cons by (subst trim_loop.simps) (simp add: Let_def)
      qed
    qed
  qed
qed

lemma trimSegments_drop_points:
  "trimSegments segs = drop_points (totalPoints_of segs - MAX_POINTS_PER_DRONE) segs"
proof (cases "totalPoints_of segs \<le> MAX_POINTS_PER_DRONE")
  case True
  then show ?thesis by (cases segs) (simp_all add: trimSegments_def)
next
  case False
  then show ?thesis by (simp add: trimSegments_def trim_loop_drop_points)
qed

lemma concat_drop_points: "concat (drop_points n segs) = drop n (concat segs)"
  by (induction segs arbitrary: n) auto

lemma drop_points_no_empty: "[] \<notin> set segs \<Longrightarrow> [] \<notin> set (drop_points n segs)"
  by (induction segs arbitrary: n) auto

lemma drop_points_shape:
  "\<exists>k j. drop_points n segs = (case drop k segs of [] \<Rightarrow> [] | s # ss \<Rightarrow> drop j s # ss)"
proof (induction segs arbitrary: n)
  case Nil
  then show ?case by simp
next
  case (Cons s ss)
  show ?case
  proof (cases "n = 0")
    case True
    have "drop_points n (s # ss) = (case drop 0 (s # ss) of [] \<Rightarrow> [] | s # ss \<Rightarrow> drop 0 s # ss)"
      using True by simp
    then show ?thesis by blast
  next
    case False
    show ?thesis
    proof (cases "length s \<le> n")
      case True
      obtain k j where "drop_points (n - length s) ss = (case drop k ss of [] \<Rightarrow> [] | s # ss \<Rightarrow> drop j s # ss)"
        using Cons.IH by blast
      then have "drop_points n (s # ss) = (case drop (Suc k) (s # ss) of [] \<Rightarrow> [] | s # ss \<Rightarrow> drop j s # ss)"
        using True False by simp
      then show ?thesis by blast
    next
      case gt: False
      have "drop_points n (s # ss) = (case drop 0 (s # ss) of [] \<Rightarrow> [] | s # ss \<Rightarrow> drop n s # ss)"
        using gt False by simp
      then show ?thesis by blast
    qed
  qed
qed

lemma trimSegments_total: "totalPoints_of (trimSegments segs) \<le> MAX_POINTS_PER_DRONE"
  by (simp add: totalPoints_of_concat trimSegments_drop_points concat_drop_points)

lemma successively_drop: "successively P xs \<Longrightarrow> successively P (drop n xs)"
proof (induction xs arbitrary: n)
  case Nil
  then show ?case by simp
next
  case (Cons x xs)
  then show ?case
    by (cases n) (auto simp: successively_Cons)
qed

lemma drop_points_successively:
  "\<forall>seg\<in>set segs. successively P seg \<Longrightarrow> \<forall>seg\<in>set (drop_points n segs). successively P seg"
  by (induction segs arbitrary: n) (auto simp: successively_drop)

lemma trimSegments_successively:
  "\<forall>seg\<in>set segs. successively P seg \<Longrightarrow> \<forall>seg\<in>set (trimSegments segs). successively P seg"
  unfolding trimSegments_drop_points by (rule drop_points_successively)

lemma upsertTrack_cases:
  obtains
    (same) "upsertTrack prev d p = prev" "\<exists>lp. lastPoint_of prev d = Some lp \<and> same_point lp p"
  | (push) "upsertTrack prev d p = prev(d \<mapsto> trimSegments (pushed (segments_of prev d) p))"
  | (extend) "upsertTrack prev d p = prev(d \<mapsto> trimSegments (extended (segments_of prev d) p))"
      "segments_of prev d \<noteq> []" "last (segments_of prev d) \<noteq> []"
      "\<bar>tp_t p - tp_t (last (last (segments_of prev d)))\<bar> \<le> SEGMENT_GAP_SECONDS"
proof (cases "case lastPoint_of prev d of None \<Rightarrow> False | Some lp \<Rightarrow> same_point lp p")
  case True
  then have "upsertTrack prev d p = prev" by (simp add: upsertTrack_def Let_def)
  moreover have "\<exists>lp. lastPoint_of prev d = Some lp \<and> same_point lp p"
    using True by (cases "lastPoint_of prev d") simp_all
  ultimately show ?thesis by (rule same)
next
  case nodup: False
  show ?thesis
  proof (cases "segments_of prev d = []")
    case True
    then have "upsertTrack prev d p = prev(d \<mapsto> trimSegments (pushed (segments_of prev d) p))"
      using nodup by (simp add: upsertTrack_def Let_def last_opt_def pushed_def)
    then show ?thesis by (rule push)
  next
    case ne: False
    show ?thesis
    proof (cases "last (segments_of prev d) = [] \<or>
        shouldStartNewSegment (lastPoint_of prev d) (Some p)")
      case True
      then have "upsertTrack prev d p = prev(d \<mapsto> trimSegments (pushed (segments_of prev d) p))"
        using nodup ne by (simp add: upsertTrack_def Let_def last_opt_def pushed_def)
      then show ?thesis by (rule push)
    next
      case False
      then have a: "last (segments_of prev d) \<noteq> []"
        and b: "\<not> shouldStartNewSegment (lastPoint_of prev d) (Some p)" by auto
      have lp: "lastPoint_of prev d = Some (last (last (segments_of prev d)))"
        using ne a by (simp add: lastPoint_of_def last_opt_def)
      have c: "\<bar>tp_t p - tp_t (last (last (segments_of prev d)))\<bar> \<le> SEGMENT_GAP_SECONDS"
        using b unfolding lp by (simp add: shouldStartNewSegment_def)
      have "upsertTrack prev d p = prev(d \<mapsto> trimSegments (extended (segments_of prev d) p))"
        using nodup ne False by (simp add: upsertTrack_def Let_def last_opt_def extended_def)
      then show ?thesis using ne a c by (rule extend)
    qed
  qed
qed

lemma concat_pushed: "concat (pushed segs p) = concat segs @ [p]"
  by (simp add: pushed_def)

lemma concat_extended: "segs \<noteq> [] \<Longrightarrow> concat (extended segs p) = concat segs @ [p]"
proof -
  assume "segs \<noteq> []"
  then have "segs = butlast segs @ [last segs]" by simp
  then have "concat segs = concat (butlast segs) @ last segs"
    by (metis concat.simps(1) concat.simps(2) concat_append append_Nil2)
  then show ?thesis by (simp add: extended_def)
qed

lemma segments_of_upd [simp]:
  "segments_of (prev(d \<mapsto> segs)) d' = (if d' = d then segs else segments_of prev d')"
  by (simp add: segments_of_def)

lemma segments_of_empty [simp]: "segments_of Map.empty d = []"
  by (simp add: segments_of_def)

lemma upsertTrack_gaps:
  assumes "all_segments gaps_within st"
  shows "all_segments gaps_within (upsertTrack st d p)"
proof (cases rule: upsertTrack_cases[of st d p])
  case same
  then show ?thesis using assms by simp
next
  case push
  have "\<forall>seg\<in>set (pushed (segments_of st d) p). gaps_within seg"
    using assms by (auto simp: pushed_def all_segments_def gaps_within_def)
  then have "\<forall>seg\<in>set (trimSegments (pushed (segments_of st d) p)). gaps_within seg"
    unfolding gaps_within_def by (rule trimSegments_successively)
  then show ?thesis using assms unfolding push all_segments_def by simp
next
  case extend
  have old: "\<forall>seg\<in>set (segments_of st d). gaps_within seg"
    using assms by (simp add: all_segments_def)
  then have "gaps_within (last (segments_of st d))"
    using extend(2) by simp
  then have "gaps_within (last (segments_of st d) @ [p])"
    using extend(3,4) by (simp add: gaps_within_def successively_append_iff)
  moreover have "\<forall>seg\<in>set (butlast (segments_of st d)). gaps_within seg"
    using old by (auto dest: in_set_butlastD)
  ultimately have "\<forall>seg\<in>set (extended (segments_of st d) p). gaps_within seg"
    by (auto simp: extended_def)
  then have "\<forall>seg\<in>set (trimSegments (extended (segments_of st d) p)). gaps_within seg"
    unfolding gaps_within_def by (rule trimSegments_successively)
  then show ?thesis using assms unfolding extend(1) all_segments_def by simp
qed

lemma fold_upsert_gaps:
  "all_segments gaps_within st \<Longrightarrow>
   all_segments gaps_within (fold (\<lambda>(droneId, point) prev. upsertTrack prev droneId point) samples st)"
  by (induction samples arbitrary: st) (auto simp: upsertTrack_gaps)

lemma run_tracks_gaps: "all_segments gaps_within (run_tracks samples)"
  unfolding run_tracks_def by (rule fold_upsert_gaps) (simp add: all_segments_def)

lemma drop_points_snoc:
  "n \<le> totalPoints_of segs \<Longrightarrow> drop_points n (segs @ [s]) = drop_points n segs @ [s]"
  by (induction segs arbitrary: n) auto

lemma drop_points_last:
  "n < totalPoints_of segs \<Longrightarrow> last segs \<noteq> [] \<Longrightarrow>
   drop_points n segs \<noteq> [] \<and> last (drop_points n segs) \<noteq> [] \<and>
   last (last (drop_points n segs)) = last (last segs)"
proof (induction segs arbitrary: n)
  case Nil
  then show ?case by simp
next
  case (Cons s ss)
  show ?case
  proof (cases "n = 0")
    case True
    then show ?thesis using Cons.prems by simp
  next
    case False
    show ?thesis
    proof (cases "length s \<le> n")
      case True
      then have lt: "n - length s < totalPoints_of ss" using Cons.prems(1) by simp
      then have ne: "ss \<noteq> []" by auto
      then have "last ss \<noteq> []" using Cons.prems(2) by simp
      from Cons.IH[OF lt this] show ?thesis using True False ne by simp
    next
      case gt: False
      then show ?thesis using False Cons.prems(2) by (cases "ss = []") auto
    qed
  qed
qed

lemma trimSegments_pushed_last:
  "trimSegments (segs @ [[p]]) \<noteq> [] \<and> last (trimSegments (segs @ [[p]])) = [p]"
proof -
  have "totalPoints_of (segs @ [[p]]) - MAX_POINTS_PER_DRONE \<le> totalPoints_of segs"
    by (simp add: MAX_POINTS_PER_DRONE_def)
  then have "trimSegments (segs @ [[p]])
      = drop_points (totalPoints_of (segs @ [[p]]) - MAX_POINTS_PER_DRONE) segs @ [[p]]"
    unfolding trimSegments_drop_points by (rule drop_points_snoc)
  then show ?thesis by simp
qed

lemma trimSegments_last_point:
  assumes "segs \<noteq> []" "last segs \<noteq> []"
  shows "last_opt (trimSegments segs) = Some (last (trimSegments segs))
       \<and> last_opt (last (trimSegments segs)) = Some (last (last segs))"
proof -
  have "totalPoints_of segs > 0"
    using assms by (induction segs) (auto split: if_splits)
  then have "totalPoints_of segs - MAX_POINTS_PER_DRONE < totalPoints_of segs"
    by (simp add: MAX_POINTS_PER_DRONE_def)
  from drop_points_last[OF this assms(2)] show ?thesis
    by (simp add: trimSegments_drop_points last_opt_def)
qed

lemma upsertTrack_lastPoint:
  "\<exists>lp. lastPoint_of (upsertTrack prev d p) d = Some lp \<and> same_point lp p"
proof (cases rule: upsertTrack_cases[of prev d p])
  case same
  then show ?thesis by simp
next
  case push
  have "lastPoint_of (upsertTrack prev d p) d = Some p"
    using trimSegments_pushed_last[of "segments_of prev d" p]
    unfolding push by (simp add: lastPoint_of_def pushed_def last_opt_def)
  then show ?thesis by (simp add: same_point_def)
next
  case extend
  have ne: "extended (segments_of prev d) p \<noteq> []" "last (extended (segments_of prev d) p) \<noteq> []"
    "last (last (extended (segments_of prev d) p)) = p"
    by (simp_all add: extended_def)
  have "lastPoint_of (upsertTrack prev d p) d = Some p"
    using trimSegments_last_point[OF ne(1,2)] ne(3)
    unfolding extend(1) by (simp add: lastPoint_of_def)
  then show ?thesis by (simp add: same_point_def)
qed

lemma upsertTrack_duplicate:
  "lastPoint_of prev d = Some lp \<Longrightarrow> same_point lp p \<Longrightarrow> upsertTrack prev d p = prev"
  by (simp add: upsertTrack_def Let_def)

subsection \<open>Duplicate delivery\<close>

text \<open>
  Claim C9. For every track state, entity and point whose latitude, longitude and time all
  equal those of the entity's last recorded point (the last point of its latest segment),
  \<open>upsertTrack\<close> returns the track state it was given. As a consequence, delivering any
  point twice in a row has the effect of delivering it once.
\<close>

theorem upsert_duplicate_unchanged:
  "(lastPoint_of prev droneId = Some lp \<and> same_point lp point \<longrightarrow>
      upsertTrack prev droneId point = prev)
   \<and> upsertTrack (upsertTrack prev droneId point) droneId point = upsertTrack prev droneId point"
proof -
  obtain lp' where "lastPoint_of (upsertTrack prev droneId point) droneId = Some lp'"
    "same_point lp' point"
    using upsertTrack_lastPoint by blast
  then have "upsertTrack (upsertTrack prev droneId point) droneId point = upsertTrack prev droneId point"
    by (rule upsertTrack_duplicate)
  then show ?thesis by (simp add: upsertTrack_duplicate)
qed

lemma ex_run: "segments_of (run_tracks [(''D1'', ex_p0), (''D1'', ex_p5)]) ''D1'' = [[ex_p0, ex_p5]]"
  by (simp add: run_tracks_def upsertTrack_def lastPoint_of_def last_opt_def segments_of_def
      same_point_def shouldStartNewSegment_def SEGMENT_GAP_SECONDS_def STALE_THRESHOLD_MS_def
      trimSegments_def totalPoints_of_def MAX_POINTS_PER_DRONE_def ex_p0_def ex_p5_def Let_def)

text \<open>The duplicate of the last point of a two-point track is discarded.\<close>

theorem upsert_duplicate_unchanged_witness:
  "lastPoint_of (run_tracks [(''D1'', ex_p0), (''D1'', ex_p5)]) ''D1'' = Some ex_p5
   \<and> same_point ex_p5 ex_p5
   \<and> upsertTrack (run_tracks [(''D1'', ex_p0), (''D1'', ex_p5)]) ''D1'' ex_p5
       = run_tracks [(''D1'', ex_p0), (''D1'', ex_p5)]"
  using upsert_duplicate_unchanged[of "run_tracks [(''D1'', ex_p0), (''D1'', ex_p5)]" "''D1''" ex_p5 ex_p5]
    ex_run
  by (simp add: lastPoint_of_def last_opt_def same_point_def)

subsection \<open>Segment gaps\<close>

lemma upsertTrack_new_segment:
  assumes "lastPoint_of prev d = Some lp" "\<bar>tp_t p - tp_t lp\<bar> > SEGMENT_GAP_SECONDS"
  shows "upsertTrack prev d p = prev(d \<mapsto> trimSegments (segments_of prev d @ [[p]]))"
proof -
  have nodup: "\<not> same_point lp p"
    using assms(2) by (auto simp: same_point_def SEGMENT_GAP_SECONDS_def)
  have "shouldStartNewSegment (Some lp) (Some p)"
    using assms(2) by (simp add: shouldStartNewSegment_def)
  then show ?thesis
    using assms(1) nodup by (simp add: upsertTrack_def Let_def split: option.splits)
qed

text \<open>
  Claim C8. In every track state reached from the empty one by a sequence of updates, any two
  consecutive points of one segment are at most \<open>SEGMENT_GAP_SECONDS\<close> apart in time, in
  absolute value; the threshold is the larger of 20 seconds and the stale threshold in
  seconds. A new point further than the threshold from the entity's last point is pushed as
  a segment of its own: after the trim step the latest segment holds exactly that point.
\<close>

theorem segment_gap_bounded:
  "(\<forall>seg\<in>set (segments_of (run_tracks samples) droneId). gaps_within seg)
   \<and> SEGMENT_GAP_SECONDS = max 20 (STALE_THRESHOLD_MS / 1000)
   \<and> (lastPoint_of prev droneId = Some lp \<and> \<bar>tp_t point - tp_t lp\<bar> > SEGMENT_GAP_SECONDS \<longrightarrow>
        upsertTrack prev droneId point
          = prev(droneId \<mapsto> trimSegments (segments_of prev droneId @ [[point]]))
        \<and> trimSegments (segments_of prev droneId @ [[point]]) \<noteq> []
        \<and> last (trimSegments (segments_of prev droneId @ [[point]])) = [point])"
proof -
  have "\<forall>seg\<in>set (segments_of (run_tracks samples) droneId). gaps_within seg"
    using run_tracks_gaps[of samples] by (simp add: all_segments_def)
  moreover have "SEGMENT_GAP_SECONDS = max 20 (STALE_THRESHOLD_MS / 1000)"
    by (simp add: SEGMENT_GAP_SECONDS_def)
  ultimately show ?thesis
    using upsertTrack_new_segment[of prev droneId lp point]
      trimSegments_pushed_last[of "segments_of prev droneId" point]
    by blast
qed

lemma ex_run_upd:
  "run_tracks [(''D1'', ex_p0), (''D1'', ex_p5)] = [''D1'' \<mapsto> [[ex_p0, ex_p5]]]"
  by (simp add: run_tracks_def upsertTrack_def lastPoint_of_def last_opt_def segments_of_def
      same_point_def shouldStartNewSegment_def SEGMENT_GAP_SECONDS_def STALE_THRESHOLD_MS_def
      trimSegments_def totalPoints_of_def MAX_POINTS_PER_DRONE_def ex_p0_def ex_p5_def Let_def)

text \<open>
  Samples at times 0 and 5 share a segment; the sample at time 40 starts the next one.
\<close>

theorem segment_gap_bounded_witness:
  "gaps_within [ex_p0, ex_p5]
   \<and> lastPoint_of (run_tracks [(''D1'', ex_p0), (''D1'', ex_p5)]) ''D1'' = Some ex_p5
   \<and> \<bar>tp_t ex_p40 - tp_t ex_p5\<bar> > SEGMENT_GAP_SECONDS
   \<and> upsertTrack (run_tracks [(''D1'', ex_p0), (''D1'', ex_p5)]) ''D1'' ex_p40
       = [''D1'' \<mapsto> [[ex_p0, ex_p5], [ex_p40]]]"
proof -
  let ?st = "run_tracks [(''D1'', ex_p0), (''D1'', ex_p5)]"
  have segs: "segments_of ?st ''D1'' = [[ex_p0, ex_p5]]"
    by (simp add: ex_run_upd segments_of_def)
  have lp: "lastPoint_of ?st ''D1'' = Some ex_p5"
    by (simp add: lastPoint_of_def segs last_opt_def)
  have gap: "\<bar>tp_t ex_p40 - tp_t ex_p5\<bar> > SEGMENT_GAP_SECONDS"
    by (simp add: ex_p5_def ex_p40_def SEGMENT_GAP_SECONDS_def STALE_THRESHOLD_MS_def)
  have trim: "trimSegments [[ex_p0, ex_p5], [ex_p40]] = [[ex_p0, ex_p5], [ex_p40]]"
    by (simp add: trimSegments_def totalPoints_of_def MAX_POINTS_PER_DRONE_def)
  show ?thesis
    using segment_gap_bounded[of "[(''D1'', ex_p0), (''D1'', ex_p5)]" "''D1''" ?st ex_p5 ex_p40]
      lp gap
    by (simp add: segs trim) (simp add: ex_run_upd)
qed

subsection \<open>The point cap\<close>

lemma upsertTrack_total:
  assumes "total_bounded st"
  shows "total_bounded (upsertTrack st d p)"
proof (cases rule: upsertTrack_cases[of st d p])
  case same
  then show ?thesis using assms by simp
next
  case push
  show ?thesis using assms unfolding push total_bounded_def
    by (simp add: trimSegments_total)
next
  case extend
  show ?thesis using assms unfolding extend(1) total_bounded_def
    by (simp add: trimSegments_total)
qed

lemma fold_upsert_total:
  "total_bounded st \<Longrightarrow>
   total_bounded (fold (\<lambda>(droneId, point) prev. upsertTrack prev droneId point) samples st)"
  by (induction samples arbitrary: st) (auto simp: upsertTrack_total)

lemma run_tracks_total: "total_bounded (run_tracks samples)"
  unfolding run_tracks_def by (rule fold_upsert_total) (simp add: total_bounded_def)

text \<open>
  Claim C7. After every sequence of track updates the points of an entity number at most
  \<open>MAX_POINTS_PER_DRONE\<close>, which is 800. \<open>trimSegments\<close> always returns at most that many
  points; what it returns is the input with exactly the overflow removed from the front of
  the concatenated points, so the earliest points of the earliest segment go first and the
  rest keep their order. The result is a suffix of the segment list whose first segment
  may have lost a prefix, and trimming leaves no empty segment behind.
\<close>

theorem track_points_capped:
  "totalPoints_of (segments_of (run_tracks samples) droneId) \<le> MAX_POINTS_PER_DRONE
   \<and> MAX_POINTS_PER_DRONE = 800
   \<and> totalPoints_of (trimSegments segments) \<le> MAX_POINTS_PER_DRONE
   \<and> concat (trimSegments segments)
       = drop (totalPoints_of segments - MAX_POINTS_PER_DRONE) (concat segments)
   \<and> (\<exists>k j. trimSegments segments
          = (case drop k segments of [] \<Rightarrow> [] | s # ss \<Rightarrow> drop j s # ss))
   \<and> ([] \<notin> set segments \<longrightarrow> [] \<notin> set (trimSegments segments))"
proof -
  have "totalPoints_of (segments_of (run_tracks samples) droneId) \<le> MAX_POINTS_PER_DRONE"
    using run_tracks_total[of samples] by (simp add: total_bounded_def)
  moreover have "concat (trimSegments segments)
       = drop (totalPoints_of segments - MAX_POINTS_PER_DRONE) (concat segments)"
    by (simp add: trimSegments_drop_points concat_drop_points)
  moreover have "\<exists>k j. trimSegments segments
          = (case drop k segments of [] \<Rightarrow> [] | s # ss \<Rightarrow> drop j s # ss)"
    unfolding trimSegments_drop_points by (rule drop_points_shape)
  moreover have "[] \<notin> set segments \<longrightarrow> [] \<notin> set (trimSegments segments)"
    by (simp add: trimSegments_drop_points drop_points_no_empty)
  moreover have "MAX_POINTS_PER_DRONE = 800"
    by (simp add: MAX_POINTS_PER_DRONE_def)
  moreover note trimSegments_total[of segments]
  ultimately show ?thesis
    by blast
qed

lemma ex_long_trim: "trimSegments ex_long = [replicate 499 ex_p0, replicate 301 ex_p5]"
proof -
  have "trimSegments ex_long = trim_loop ex_long 801"
    by (simp add: trimSegments_def ex_long_def totalPoints_of_def MAX_POINTS_PER_DRONE_def)
  also have "\<dots> = trim_loop [replicate 499 ex_p0, replicate 301 ex_p5] 800"
    by (subst trim_loop.simps) (simp add: ex_long_def MAX_POINTS_PER_DRONE_def)
  also have "\<dots> = [replicate 499 ex_p0, replicate 301 ex_p5]"
    by (subst trim_loop.simps) (simp add: MAX_POINTS_PER_DRONE_def)
  finally show ?thesis .
qed

text \<open>Two segments of 500 and 301 points lose the first point of the first segment.\<close>

theorem track_points_capped_witness:
  "[] \<notin> set ex_long \<and> totalPoints_of ex_long = 801
   \<and> trimSegments ex_long = [replicate 499 ex_p0, replicate 301 ex_p5]
   \<and> [] \<notin> set (trimSegments ex_long)
   \<and> totalPoints_of (trimSegments ex_long) = 800"
  using track_points_capped[of "[]" "''D1''" ex_long]
  by (simp add: ex_long_trim) (simp add: ex_long_def totalPoints_of_def)

subsection \<open>Time order within a segment\<close>

text \<open>
  Claim C3 as stated fails: a sample five seconds older than the entity's last point is
  within the gap threshold (the test takes the absolute value of the difference), so it
  is appended to the current segment, behind a later time.
\<close>

theorem time_monotone_counterexample:
  "run_tracks [(''D1'', ex_q5), (''D1'', ex_q0)] = [''D1'' \<mapsto> [[ex_q5, ex_q0]]]
   \<and> \<not> time_monotone [ex_q5, ex_q0]"
  by (simp add: run_tracks_def upsertTrack_def lastPoint_of_def last_opt_def segments_of_def
      same_point_def shouldStartNewSegment_def SEGMENT_GAP_SECONDS_def STALE_THRESHOLD_MS_def
      trimSegments_def totalPoints_of_def MAX_POINTS_PER_DRONE_def ex_q0_def ex_q5_def Let_def
      time_monotone_def)

lemma sorted_wrt_drop_own: "sorted_wrt P xs \<Longrightarrow> sorted_wrt P (drop n xs)"
proof (induction xs arbitrary: n)
  case Nil
  then show ?case by simp
next
  case (Cons x xs)
  then show ?case by (cases n) (auto dest: in_set_dropD)
qed

lemma sorted_wrt_concat_member:
  "sorted_wrt P (concat xss) \<Longrightarrow> xs \<in> set xss \<Longrightarrow> sorted_wrt P xs"
  by (induction xss) (auto simp: sorted_wrt_append)

lemma upsertTrack_concat:
  "\<exists>k. concat (segments_of (upsertTrack st d p) d) = concat (segments_of st d)
     \<or> concat (segments_of (upsertTrack st d p) d) = drop k (concat (segments_of st d) @ [p])"
proof (cases rule: upsertTrack_cases[of st d p])
  case same
  then show ?thesis by simp
next
  case push
  have seg: "segments_of (upsertTrack st d p) d = trimSegments (pushed (segments_of st d) p)"
    unfolding push by simp
  have "concat (trimSegments (pushed (segments_of st d) p))
      = drop (totalPoints_of (pushed (segments_of st d) p) - MAX_POINTS_PER_DRONE)
          (concat (segments_of st d) @ [p])"
    by (simp only: trimSegments_drop_points concat_drop_points concat_pushed)
  then show ?thesis unfolding seg by blast
next
  case extend
  have seg: "segments_of (upsertTrack st d p) d = trimSegments (extended (segments_of st d) p)"
    unfolding extend(1) by simp
  have "concat (trimSegments (extended (segments_of st d) p))
      = drop (totalPoints_of (extended (segments_of st d) p) - MAX_POINTS_PER_DRONE)
          (concat (segments_of st d) @ [p])"
    by (simp only: trimSegments_drop_points concat_drop_points concat_extended[OF extend(2)])
  then show ?thesis unfolding seg by blast
qed

lemma upsertTrack_other: "d' \<noteq> d \<Longrightarrow> segments_of (upsertTrack st d p) d' = segments_of st d'"
  by (cases rule: upsertTrack_cases[of st d p]) simp_all

lemma upsertTrack_chrono:
  assumes "chrono ((d, p) # pending) st"
    and later: "\<forall>s\<in>set pending. fst s = d \<longrightarrow> by_time p (snd s)"
  shows "chrono pending (upsertTrack st d p)"
  unfolding chrono_def
proof (intro allI conjI ballI impI)
  fix d'
  have old: "sorted_wrt by_time (concat (segments_of st d'))"
    using assms(1) by (simp add: chrono_def)
  have le_p: "\<forall>q\<in>set (concat (segments_of st d)). by_time q p"
    using assms(1) unfolding chrono_def by fastforce
  have app: "sorted_wrt by_time (concat (segments_of st d) @ [p])"
    using assms(1) le_p by (simp add: chrono_def sorted_wrt_append)
  obtain k where k: "concat (segments_of (upsertTrack st d p) d) = concat (segments_of st d)
     \<or> concat (segments_of (upsertTrack st d p) d) = drop k (concat (segments_of st d) @ [p])"
    using upsertTrack_concat by blast
  show "sorted_wrt by_time (concat (segments_of (upsertTrack st d p) d'))"
  proof (cases "d' = d")
    case True
    then show ?thesis using k old sorted_wrt_drop_own[OF app] by (auto simp del: drop_append)
  next
    case False
    then show ?thesis using old by (simp add: upsertTrack_other)
  qed
  fix q s
  assume q: "q \<in> set (concat (segments_of (upsertTrack st d p) d'))"
    and s: "s \<in> set pending" "fst s = d'"
  show "by_time q (snd s)"
  proof (cases "d' = d")
    case True
    define old where "old = concat (segments_of st d)"
    define new where "new = concat (segments_of (upsertTrack st d p) d)"
    have "new = old \<or> new = drop k (old @ [p])"
      using k by (simp only: old_def new_def)
    moreover have "q \<in> set new"
      using q True by (simp only: new_def)
    ultimately have "q \<in> set old \<or> q = p"
      by (auto simp del: drop_append dest: in_set_dropD)
    then have "q \<in> set (concat (segments_of st d)) \<or> q = p"
      by (simp only: old_def)
    then show ?thesis
    proof
      assume "q \<in> set (concat (segments_of st d))"
      then show ?thesis using assms(1) s True unfolding chrono_def by fastforce
    next
      assume "q = p"
      then show ?thesis using later s True by simp
    qed
  next
    case False
    then have "q \<in> set (concat (segments_of st d'))"
      using q by (simp add: upsertTrack_other)
    then show ?thesis using assms(1) s unfolding chrono_def by fastforce
  qed
qed

lemma fold_upsert_chrono:
  "ordered_arrivals samples \<Longrightarrow> chrono samples st \<Longrightarrow>
   chrono [] (fold (\<lambda>(droneId, point) prev. upsertTrack prev droneId point) samples st)"
proof (induction samples arbitrary: st)
  case Nil
  then show ?case by simp
next
  case (Cons s samples)
  obtain d p where s: "s = (d, p)" by (cases s)
  have later: "\<forall>s'\<in>set samples. fst s' = d \<longrightarrow> by_time p (snd s')"
    using Cons.prems(1) by (auto simp: ordered_arrivals_def s by_time_def)
  have "chrono samples (upsertTrack st d p)"
    using Cons.prems(2) later unfolding s by (rule upsertTrack_chrono)
  moreover have "ordered_arrivals samples"
    using Cons.prems(1) by (simp add: ordered_arrivals_def)
  ultimately show ?case using Cons.IH by (simp add: s)
qed

text \<open>
  Claim C3, amended. In every track state reached from the empty one by a sequence of
  accepted samples in which the samples of each entity arrive in non-decreasing time order,
  the times of consecutive points of each segment are non-decreasing.
\<close>

theorem time_monotone_when_ordered:
  "ordered_arrivals samples \<Longrightarrow>
   \<forall>seg\<in>set (segments_of (run_tracks samples) droneId). time_monotone seg"
proof
  fix seg
  assume ord: "ordered_arrivals samples"
    and seg: "seg \<in> set (segments_of (run_tracks samples) droneId)"
  have "chrono samples Map.empty" by (simp add: chrono_def)
  with ord have "chrono [] (run_tracks samples)"
    unfolding run_tracks_def by (rule fold_upsert_chrono)
  then have "sorted_wrt by_time (concat (segments_of (run_tracks samples) droneId))"
    by (simp add: chrono_def)
  then have "sorted_wrt by_time seg" using seg by (rule sorted_wrt_concat_member)
  then have "successively by_time seg" by (rule successively_if_sorted_wrt)
  then show "time_monotone seg"
    by (simp add: time_monotone_def by_time_def[abs_def])
qed

text \<open>Samples at times 0 and 5 arrive in order and form one monotone segment.\<close>

theorem time_monotone_when_ordered_witness:
  "ordered_arrivals [(''D1'', ex_p0), (''D1'', ex_p5)]
   \<and> segments_of (run_tracks [(''D1'', ex_p0), (''D1'', ex_p5)]) ''D1'' = [[ex_p0, ex_p5]]
   \<and> time_monotone [ex_p0, ex_p5]"
proof -
  have ord: "ordered_arrivals [(''D1'', ex_p0), (''D1'', ex_p5)]"
    by (simp add: ordered_arrivals_def ex_p0_def ex_p5_def)
  show ?thesis
    using time_monotone_when_ordered[OF ord, of "''D1''"] ord by (simp add: ex_run)
qed

section \<open>Rendering simplification: the end points\<close>

lemma fold_dedupe_hd:
  "acc \<noteq> [] \<Longrightarrow> fold (dedupe_step m) xs acc \<noteq> [] \<and> hd (fold (dedupe_step m) xs acc) = hd acc"
  by (induction xs arbitrary: acc) (auto simp: dedupe_step_def Let_def)

lemma fold_dedupe_last:
  assumes "acc \<noteq> []"
  shows "last (fold (dedupe_step m) xs acc) = last (acc @ xs)
       \<or> near m (last (fold (dedupe_step m) xs acc)) (last (acc @ xs))"
proof (cases xs rule: rev_cases)
  case Nil
  then show ?thesis by simp
next
  case (snoc ys x)
  then show ?thesis
    by (simp add: dedupe_step_def Let_def near_def)
qed

lemma dedupe_step_subset: "set (dedupe_step m x acc) \<subseteq> insert x (set acc)"
  by (auto simp: dedupe_step_def Let_def)

lemma fold_dedupe_subset:
  "set (fold (dedupe_step m) xs acc) \<subseteq> set acc \<union> set xs"
proof (induction xs arbitrary: acc)
  case Nil
  then show ?case by simp
next
  case (Cons x xs)
  have "set (fold (dedupe_step m) xs (dedupe_step m x acc)) \<subseteq> set (dedupe_step m x acc) \<union> set xs"
    by (rule Cons.IH)
  then show ?case using dedupe_step_subset[of m x acc] by auto
qed

lemma stride_hd:
  assumes "xs \<noteq> []" "P (0, hd xs)"
  shows "map snd (filter P (enumerate 0 xs)) \<noteq> [] \<and> hd (map snd (filter P (enumerate 0 xs))) = hd xs"
  using assms by (cases xs) auto

lemma stride_last:
  assumes "xs \<noteq> []" "P (length xs - 1, last xs)"
  shows "last (map snd (filter P (enumerate 0 xs))) = last xs"
proof -
  obtain ys x where xs: "xs = ys @ [x]" using assms(1) by (cases xs rule: rev_cases) auto
  have "enumerate 0 xs = enumerate 0 ys @ [(length ys, x)]"
    by (simp add: xs enumerate_append_eq)
  then show ?thesis using assms(2) by (simp add: xs)
qed

lemma stride_subset: "set (map snd (filter P (enumerate n xs))) \<subseteq> set xs"
  by (induction xs arbitrary: n) auto

text \<open>
  Claim C4 as stated fails: the last point of a three-point segment lies within
  \<^verbatim>\<open>minDelta\<close> of the point before it, the dedupe loop skips it, and the simplified
  segment ends with the point before.
\<close>

theorem simplify_counterexample:
  "simplifySegment_default [ex_a, ex_b, ex_c] = [ex_a, ex_b]
   \<and> last [ex_a, ex_b, ex_c] = ex_c \<and> ex_c \<notin> set [ex_a, ex_b]"
  by (simp add: simplifySegment_default_def simplifySegment_def dedupe_step_def Let_def
      ex_a_def ex_b_def ex_c_def)

text \<open>
  Claim C4, amended. For every non-empty segment and every \<^verbatim>\<open>maxPoints\<close> and
  \<^verbatim>\<open>minDelta\<close>, the simplified segment is non-empty, holds only points of the original,
  starts with the first point of the original, and ends with the last point of the original
  or, when the dedupe loop skipped that one, with a point nearer to it than \<^verbatim>\<open>minDelta\<close>.
\<close>

theorem simplify_endpoints:
  assumes "segment \<noteq> []"
  shows "simplifySegment segment maxPoints minDelta \<noteq> []
       \<and> hd (simplifySegment segment maxPoints minDelta) = hd segment
       \<and> (last (simplifySegment segment maxPoints minDelta) = last segment
          \<or> near minDelta (last (simplifySegment segment maxPoints minDelta)) (last segment))
       \<and> set (simplifySegment segment maxPoints minDelta) \<subseteq> set segment"
proof (cases "length segment \<le> 2")
  case True
  then show ?thesis using assms by (simp add: simplifySegment_def)
next
  case False
  define deduped where "deduped = fold (dedupe_step minDelta) (tl segment) [hd segment]"
  have seg: "[hd segment] @ tl segment = segment" using assms by simp
  have ne: "deduped \<noteq> []" and hd: "hd deduped = hd segment"
    using fold_dedupe_hd[of "[hd segment]" minDelta "tl segment"] by (simp_all add: deduped_def)
  have lst: "last deduped = last segment \<or> near minDelta (last deduped) (last segment)"
    using fold_dedupe_last[of "[hd segment]" minDelta "tl segment"] unfolding seg deduped_def by simp
  have sub: "set deduped \<subseteq> set segment"
    using fold_dedupe_subset[of minDelta "tl segment" "[hd segment]"] assms
    unfolding deduped_def by (cases segment) auto
  show ?thesis
  proof (cases "length deduped \<le> maxPoints")
    case True
    then have "simplifySegment segment maxPoints minDelta = deduped"
      using False by (simp add: simplifySegment_def deduped_def Let_def)
    then show ?thesis using ne hd lst sub by simp
  next
    case big: False
    define step where "step = nat \<lceil>real (length deduped) / real maxPoints\<rceil>"
    define keep where "keep = (\<lambda>(idx :: nat, _ :: TrackPoint). idx mod step = 0 \<or> idx = length deduped - 1)"
    have res: "simplifySegment segment maxPoints minDelta = map snd (filter keep (enumerate 0 deduped))"
      using False big by (simp add: simplifySegment_def deduped_def Let_def step_def keep_def)
    have k0: "keep (0, hd deduped)" by (simp add: keep_def)
    have kl: "keep (length deduped - 1, last deduped)" by (simp add: keep_def)
    show ?thesis
      unfolding res
      using stride_hd[of deduped keep, OF ne k0] stride_last[of deduped keep, OF ne kl]
        stride_subset[of keep 0 deduped] hd lst sub
      by auto
  qed
qed

text \<open>Stride decimation of five distinct points to at most two: the step is 3.\<close>

lemma ex_stride:
  "simplifySegment [ex_n 0, ex_n 1, ex_n 2, ex_n 3, ex_n 4] 2 (1 / 100000) = [ex_n 0, ex_n 3, ex_n 4]"
  by (simp add: simplifySegment_def dedupe_step_def Let_def ex_n_def enumerate_eq_zip upt_rec)

text \<open>The three-point segment above keeps its first point and ends near its last one.\<close>

theorem simplify_endpoints_witness:
  "[ex_a, ex_b, ex_c] \<noteq> []
   \<and> hd (simplifySegment [ex_a, ex_b, ex_c] 160 (1 / 100000)) = ex_a
   \<and> last (simplifySegment [ex_a, ex_b, ex_c] 160 (1 / 100000)) = ex_b
   \<and> near (1 / 100000) ex_b ex_c"
  using simplify_endpoints[of "[ex_a, ex_b, ex_c]" 160 "1 / 100000"]
  by (simp add: simplifySegment_def dedupe_step_def Let_def near_def ex_a_def ex_b_def ex_c_def)

section \<open>The live-telemetry hook: staleness and history\<close>

text \<open>
  Claim C10. When the current sample (the latest stream sample of the observed entity,
  else the polled one) has an event timestamp equal to 0, the hook derives the last-update
  time from the receipt timestamp: a non-zero receipt timestamp times 1000, and no
  last-update time when the receipt timestamp is 0 or absent, in which case the entity is
  reported stale.
\<close>

theorem zero_timestamp_absent:
  assumes "res_telemetry (useLiveTelemetry_result droneId currentTimeMs polled st) = Some tm"
    and "timestamp tm = Some 0"
  shows "res_lastUpdateMs (useLiveTelemetry_result droneId currentTimeMs polled st)
           = (case received_timestamp tm of
                None \<Rightarrow> None
              | Some r \<Rightarrow> if r = 0 then None else Some (r * 1000))
       \<and> ((received_timestamp tm = Some 0 \<or> received_timestamp tm = None) \<longrightarrow>
            res_lastUpdateMs (useLiveTelemetry_result droneId currentTimeMs polled st) = None
            \<and> res_isStale (useLiveTelemetry_result droneId currentTimeMs polled st))"
proof -
  have tel: "nullish (chain droneId (latestByDrone st)) polled = Some tm"
    using assms(1) by (simp add: useLiveTelemetry_result_def Let_def)
  have lu: "lastUpdateMs (Some tm)
      = (case received_timestamp tm of None \<Rightarrow> None | Some r \<Rightarrow> if r = 0 then None else Some (r * 1000))"
    using assms(2) by (simp add: lastUpdateMs_def truthy_def chain_def split: option.splits)
  show ?thesis
    using lu by (auto simp: useLiveTelemetry_result_def Let_def tel isStale_def)
qed

text \<open>A polled sample with event timestamp 0 and no receipt timestamp is stale.\<close>

theorem zero_timestamp_absent_witness:
  "res_telemetry (useLiveTelemetry_result (Some ''D1'') 5000 (Some ex_tm0) (live_init 5000)) = Some ex_tm0
   \<and> timestamp ex_tm0 = Some 0
   \<and> received_timestamp ex_tm0 = None
   \<and> res_lastUpdateMs (useLiveTelemetry_result (Some ''D1'') 5000 (Some ex_tm0) (live_init 5000)) = None
   \<and> res_isStale (useLiveTelemetry_result (Some ''D1'') 5000 (Some ex_tm0) (live_init 5000))"
proof -
  have a: "res_telemetry (useLiveTelemetry_result (Some ''D1'') 5000 (Some ex_tm0) (live_init 5000)) = Some ex_tm0"
    by (simp add: useLiveTelemetry_result_def Let_def live_init_def chain_def nullish_def)
  have b: "timestamp ex_tm0 = Some 0" by (simp add: ex_tm0_def)
  have c: "received_timestamp ex_tm0 = None" by (simp add: ex_tm0_def)
  show ?thesis
    using zero_timestamp_absent[OF a b] a b c by simp
qed

lemma most_recent_append: "most_recent n (most_recent n xs @ ys) = most_recent n (xs @ ys)"
  by (cases "length xs \<le> n") (auto simp: most_recent_def add.commute)

lemma slice_last_most_recent: "slice_last HISTORY_POINTS xs = most_recent HISTORY_POINTS xs"
  by (simp add: slice_last_def most_recent_def HISTORY_POINTS_def)

lemma history_of_onmessage:
  "history_of (onmessage d data st) d =
     (case parse_and_normalize data of
        Inl err \<Rightarrow> history_of st d
      | Inr message \<Rightarrow>
          most_recent HISTORY_POINTS (history_of st d @ [history_point (nowRef st) message]))"
  by (simp add: onmessage_def Let_def history_of_def slice_last_most_recent split: sum.splits)

lemma history_of_other:
  "history_of (onopen st) d = history_of st d"
  "history_of (onerror st) d = history_of st d"
  "history_of (onclose st) d = history_of st d"
  "history_of (connect d' st) d = history_of st d"
  "history_of (cleanup st) d = history_of st d"
  "history_of (st\<lparr>nowRef := n\<rparr>) d = history_of st d"
  by (simp_all add: history_of_def onopen_def onerror_def onclose_def connect_def cleanup_def
      Let_def split: option.splits)

lemma nowRef_handlers:
  "nowRef (onopen st) = nowRef st"
  "nowRef (onmessage d data st) = nowRef st"
  "nowRef (onerror st) = nowRef st"
  "nowRef (onclose st) = nowRef st"
  "nowRef (connect d st) = nowRef st"
  "nowRef (cleanup st) = nowRef st"
  by (simp_all add: onopen_def onmessage_def onerror_def onclose_def connect_def cleanup_def
      Let_def split: sum.splits option.splits)

lemma history_of_run:
  "history_of st d = most_recent HISTORY_POINTS (history_of st d) \<Longrightarrow>
   history_of (live_run d events st) d
     = most_recent HISTORY_POINTS (history_of st d @ accepted_points events (nowRef st))"
proof (induction events arbitrary: st)
  case Nil
  then show ?case by (simp add: live_run_def)
next
  case (Cons ev events)
  have run: "live_run d (ev # events) st = live_run d events (live_step d ev st)"
    by (simp add: live_run_def)
  show ?case
  proof (cases "\<exists>data message. ev = E_message data \<and> parse_and_normalize data = Inr message")
    case True
    then obtain data message where ev: "ev = E_message data"
      and pn: "parse_and_normalize data = Inr message" by blast
    let ?p = "history_point (nowRef st) message"
    have h: "history_of (live_step d ev st) d = most_recent HISTORY_POINTS (history_of st d @ [?p])"
      by (simp add: history_of_onmessage ev pn)
    have n: "nowRef (live_step d ev st) = nowRef st"
      by (simp add: ev nowRef_handlers)
    have fx: "history_of (live_step d ev st) d = most_recent HISTORY_POINTS (history_of (live_step d ev st) d)"
      unfolding h by (simp add: most_recent_def)
    have "history_of (live_run d events (live_step d ev st)) d
        = most_recent HISTORY_POINTS
            (most_recent HISTORY_POINTS (history_of st d @ [?p]) @ accepted_points events (nowRef st))"
      using Cons.IH[OF fx] unfolding h n .
    also have "\<dots> = most_recent HISTORY_POINTS ((history_of st d @ [?p]) @ accepted_points events (nowRef st))"
      by (rule most_recent_append)
    finally show ?thesis unfolding run by (simp add: ev pn)
  next
    case False
    then have h: "history_of (live_step d ev st) d = history_of st d"
      by (cases ev) (auto simp: history_of_onmessage history_of_other split: sum.splits)
    have acc: "accepted_points (ev # events) (nowRef st)
        = accepted_points events (nowRef (live_step d ev st))"
      using False by (cases ev) (auto simp: nowRef_handlers split: sum.splits)
    have fx: "history_of (live_step d ev st) d = most_recent HISTORY_POINTS (history_of (live_step d ev st) d)"
      unfolding h by (rule Cons.prems)
    show ?thesis unfolding run acc using Cons.IH[OF fx] unfolding h .
  qed
qed

text \<open>
  Claim C6. After any run of events of one subscription, started from the initial state,
  the history buffer of the entity holds the points of the accepted samples in arrival
  order, without the oldest ones beyond the last \<open>HISTORY_POINTS\<close>: its length is the
  smaller of the number of accepted samples and the capacity, which is 120.
\<close>

theorem history_bounded_recent:
  "history_of (live_run droneId events (live_init currentTimeMs)) droneId
     = drop (length (accepted_points events currentTimeMs) - HISTORY_POINTS)
         (accepted_points events currentTimeMs)
   \<and> length (history_of (live_run droneId events (live_init currentTimeMs)) droneId)
     = min (length (accepted_points events currentTimeMs)) HISTORY_POINTS
   \<and> length (history_of (live_run droneId events (live_init currentTimeMs)) droneId) \<le> HISTORY_POINTS
   \<and> HISTORY_POINTS = 120"
proof -
  have init: "history_of (live_init currentTimeMs) droneId = []"
    by (simp add: history_of_def live_init_def)
  have "history_of (live_run droneId events (live_init currentTimeMs)) droneId
     = most_recent HISTORY_POINTS (accepted_points events currentTimeMs)"
    using history_of_run[of "live_init currentTimeMs" droneId events]
    by (simp add: init most_recent_def) (simp add: live_init_def)
  then show ?thesis
    by (auto simp: most_recent_def HISTORY_POINTS_def)
qed

section \<open>Stream connections: teardown, malformed messages, backoff\<close>

subsection \<open>A reconnect timer that outlives its subscription\<close>

text \<open>
  Claim C1 fails in the live-telemetry hook. The socket of a running subscription closes,
  which sets a reconnect timer of 1000 ms; the effect is cleaned up (the observed entity
  changes, or the view unmounts) before the timer fires. The timer's callback is
  \<^verbatim>\<open>connect\<close> itself and tests nothing, so when it fires a second socket is opened for
  the entity and the stream state becomes \<^verbatim>\<open>connecting\<close>, although \<^verbatim>\<open>cancelled\<close> is set.
\<close>

theorem reconnect_after_cleanup:
  "cancelled (live_run ''D1'' [E_close, E_cleanup] (subscribe (Some ''D1'') (live_init 0)))
   \<and> timers (live_run ''D1'' [E_close, E_cleanup] (subscribe (Some ''D1'') (live_init 0))) = [1000]
   \<and> opened (live_run ''D1'' [E_close, E_cleanup] (subscribe (Some ''D1'') (live_init 0))) = [''D1'']
   \<and> opened (live_run ''D1'' [E_close, E_cleanup, E_timer] (subscribe (Some ''D1'') (live_init 0)))
       = [''D1'', ''D1'']
   \<and> streamState (live_run ''D1'' [E_close, E_cleanup, E_timer] (subscribe (Some ''D1'') (live_init 0)))
       = S_connecting"
  by (simp add: live_run_def subscribe_def live_init_def connect_def onclose_def cleanup_def
      reconnect_delay_def RECONNECT_MAX_DELAY_MS_def RECONNECT_BASE_DELAY_MS_def Let_def)

subsection \<open>What the handlers of the track hook leave alone\<close>

lemma close_socket_frame:
  "activeIdsRef (close_socket ws st) = activeIdsRef st"
  "retriesRef (close_socket ws st) = retriesRef st"
  "timers_set (close_socket ws st) = timers_set st"
  "sockets_opened (close_socket ws st) = sockets_opened st"
  by (simp_all add: close_socket_def)

lemma set_ready_frame:
  "activeIdsRef (set_ready ws r st) = activeIdsRef st"
  "retriesRef (set_ready ws r st) = retriesRef st"
  "timers_set (set_ready ws r st) = timers_set st"
  "sockets_opened (set_ready ws r st) = sockets_opened st"
  by (simp_all add: set_ready_def)

lemma tracks_connect_frame:
  "activeIdsRef (tracks_connect d st) = activeIdsRef st"
  "retriesRef (tracks_connect d st) = retriesRef st"
  "timers_set (tracks_connect d st) = timers_set st"
  by (simp_all add: tracks_connect_def)

lemma tracks_onmessage_frame:
  "activeIdsRef (tracks_onmessage d now data st) = activeIdsRef st"
  "retriesRef (tracks_onmessage d now data st) = retriesRef st"
  "timers_set (tracks_onmessage d now data st) = timers_set st"
  by (simp_all add: tracks_onmessage_def Let_def split: option.splits)

lemma tracks_onclose_effect:
  "activeIdsRef (tracks_onclose e st) = activeIdsRef st"
  "e \<in> set (activeIdsRef st) \<Longrightarrow>
     retriesRef (tracks_onclose e st) = (retriesRef st)(e \<mapsto> Suc (retry_of st e))"
  "e \<in> set (activeIdsRef st) \<Longrightarrow>
     timers_set (tracks_onclose e st) = timers_set st @ [(e, reconnect_delay (Suc (retry_of st e)))]"
  "e \<notin> set (activeIdsRef st) \<Longrightarrow> retriesRef (tracks_onclose e st) = retriesRef st"
  "e \<notin> set (activeIdsRef st) \<Longrightarrow> timers_set (tracks_onclose e st) = timers_set st"
  by (simp_all add: tracks_onclose_def Let_def retry_of_def)

lemma ensure_connected_active: "activeIdsRef (ensure_connected i st) = activeIdsRef st"
  by (simp add: ensure_connected_def tracks_connect_frame split: option.splits)

lemma fold_ensure_connected_active: "activeIdsRef (fold ensure_connected ids st) = activeIdsRef st"
  by (induction ids arbitrary: st) (simp_all add: ensure_connected_active)

lemma drop_inactive_active: "activeIdsRef (drop_inactive e st) = activeIdsRef st"
  by (cases e) (simp add: drop_inactive_def close_socket_frame Let_def split: option.splits)

lemma fold_drop_inactive_active: "activeIdsRef (fold drop_inactive es st) = activeIdsRef st"
  by (induction es arbitrary: st) (simp_all add: drop_inactive_active)

lemma close_entry_active: "activeIdsRef (close_entry e st) = activeIdsRef st"
  by (simp add: close_entry_def close_socket_frame split: option.splits)

lemma fold_close_entry_active: "activeIdsRef (fold close_entry es st) = activeIdsRef st"
  by (induction es arbitrary: st) (simp_all add: close_entry_active)

lemma sync_drones_active: "set (activeIdsRef (sync_drones drones st)) = set (active_ids drones)"
  by (simp add: sync_drones_def Let_def fold_drop_inactive_active fold_ensure_connected_active
      js_set_def active_ids_def)

lemma tracks_unmount_active: "activeIdsRef (tracks_unmount st) = []"
  by (simp add: tracks_unmount_def Let_def fold_close_entry_active)

text \<open>The first run of the effect with one online drone opens one socket.\<close>

lemma ex_sync:
  "sync_drones [ex_drone] tracks_init
     = tracks_init\<lparr> socketsRef := [(''D1'', Some 0)], activeIdsRef := [''D1''],
         readyStates := [CONNECTING], sockets_opened := [''D1''] \<rparr>"
  by (simp add: sync_drones_def js_set_def ex_drone_def tracks_init_def ensure_connected_def
      tracks_connect_def drop_inactive_def Let_def)

subsection \<open>Messages that fail to parse or normalize\<close>





lemma history_of_but: "history_of (but_wsError st) d = history_of st d"
  by (simp add: history_of_def but_wsError_def)












subsection \<open>Exponential backoff\<close>

lemma reconnect_delay_eq: "reconnect_delay (Suc n) = min 10000 (1000 * 2 ^ n)"
  by (simp add: reconnect_delay_def RECONNECT_MAX_DELAY_MS_def RECONNECT_BASE_DELAY_MS_def)

lemma live_run_Cons: "live_run d (ev # events) st = live_run d events (live_step d ev st)"
  by (simp add: live_run_def)

lemma live_run_schedule:
  "timers (live_run d events st)
     = timers st @ backoff_schedule (retryCountRef st) (cancelled st) events"
proof (induction events arbitrary: st)
  case Nil
  then show ?case by (simp add: live_run_def)
next
  case (Cons ev events)
  show ?case
  proof (cases ev)
    case E_open
    then show ?thesis by (simp add: live_run_Cons Cons.IH onopen_def)
  next
    case (E_message data)
    then show ?thesis
      by (cases "parse_and_normalize data")
         (simp_all add: live_run_Cons Cons.IH onmessage_def Let_def)
  next
    case E_error
    then show ?thesis by (simp add: live_run_Cons Cons.IH onerror_def)
  next
    case E_close
    then show ?thesis
      by (simp add: live_run_Cons Cons.IH onclose_def Let_def reconnect_delay_eq)
  next
    case E_timer
    then show ?thesis by (simp add: live_run_Cons Cons.IH connect_def)
  next
    case E_cleanup
    then show ?thesis
      by (simp add: live_run_Cons Cons.IH cleanup_def Let_def split: option.splits)
  next
    case (E_now n)
    then show ?thesis by (simp add: live_run_Cons Cons.IH)
  qed
qed

lemma retry_count_facts:
  "retryCountRef (live_init now) = 0"
  "retryCountRef (onopen st) = 0"
  "retryCountRef (subscribe x st) = retryCountRef st"
  by (simp_all add: live_init_def onopen_def subscribe_def connect_def split: option.splits)

lemma live_step_timers:
  assumes "\<not> cancelled st" "ev \<noteq> E_open" "ev \<noteq> E_cleanup"
  shows "\<not> cancelled (live_step d ev st)
       \<and> retryCountRef (live_step d ev st) = retryCountRef st + (if ev = E_close then 1 else 0)
       \<and> timers (live_step d ev st)
           = timers st @ (if ev = E_close then [reconnect_delay (Suc (retryCountRef st))] else [])"
  using assms
  by (cases ev)
     (simp_all add: onmessage_def onerror_def onclose_def connect_def Let_def split: sum.splits)

lemma live_run_timers:
  "\<not> cancelled st \<Longrightarrow> failure_run events \<Longrightarrow>
   \<not> cancelled (live_run d events st)
   \<and> retryCountRef (live_run d events st) = retryCountRef st + count_list events E_close
   \<and> timers (live_run d events st)
       = timers st @ map reconnect_delay
           [Suc (retryCountRef st) ..< Suc (retryCountRef st + count_list events E_close)]"
proof (induction events arbitrary: st)
  case Nil
  then show ?case by (simp add: live_run_def)
next
  case (Cons ev events)
  have ev: "ev \<noteq> E_open" "ev \<noteq> E_cleanup" and rest: "failure_run events"
    using Cons.prems(2) by (simp_all add: failure_run_def)
  note step = live_step_timers[OF Cons.prems(1) ev, of d]
  have run: "live_run d (ev # events) st = live_run d events (live_step d ev st)"
    by (simp add: live_run_def)
  from step have nc: "\<not> cancelled (live_step d ev st)" by simp
  note ih = Cons.IH[OF nc rest]
  define r where "r = retryCountRef st"
  define c where "c = count_list events E_close"
  show ?case
  proof (cases "ev = E_close")
    case True
    have upt: "[Suc r ..< Suc (r + Suc c)] = Suc r # [Suc (Suc r) ..< Suc (Suc r + c)]"
      by (simp add: upt_conv_Cons)
    have r': "retryCountRef (live_step d ev st) = Suc r"
      using step True by (simp add: r_def)
    have t': "timers (live_step d ev st) = timers st @ [reconnect_delay (Suc r)]"
      using step True by (simp add: r_def)
    have cnt: "count_list (ev # events) E_close = Suc c"
      using True by (simp add: c_def)
    show ?thesis
      unfolding run cnt
      using ih unfolding r' t' r_def[symmetric] c_def[symmetric] upt
      by simp
  next
    case False
    have r': "retryCountRef (live_step d ev st) = r"
      using step False by (simp add: r_def)
    have t': "timers (live_step d ev st) = timers st"
      using step False by simp
    have cnt: "count_list (ev # events) E_close = c"
      using False by (simp add: c_def)
    show ?thesis
      unfolding run cnt
      using ih unfolding r' t' r_def[symmetric] c_def[symmetric]
      by simp
  qed
qed

lemma ensure_connected_frame:
  "retriesRef (ensure_connected i st) = retriesRef st"
  "timers_set (ensure_connected i st) = timers_set st"
  by (simp_all add: ensure_connected_def tracks_connect_frame split: option.splits)

lemma fold_ensure_connected_frame:
  "retriesRef (fold ensure_connected ids st) = retriesRef st
   \<and> timers_set (fold ensure_connected ids st) = timers_set st"
  by (induction ids arbitrary: st) (simp_all add: ensure_connected_frame)

lemma drop_inactive_timers: "timers_set (drop_inactive e st) = timers_set st"
  by (cases e) (simp add: drop_inactive_def close_socket_frame Let_def split: option.splits)

lemma fold_drop_inactive_timers: "timers_set (fold drop_inactive es st) = timers_set st"
  by (induction es arbitrary: st) (simp_all add: drop_inactive_timers)

lemma drop_inactive_retry_kept:
  "d \<in> set (activeIdsRef st) \<Longrightarrow> retriesRef (drop_inactive e st) d = retriesRef st d"
  by (cases e) (auto simp: drop_inactive_def close_socket_frame Let_def split: option.splits)

lemma fold_drop_inactive_retry_kept:
  "d \<in> set (activeIdsRef st) \<Longrightarrow> retriesRef (fold drop_inactive es st) d = retriesRef st d"
proof (induction es arbitrary: st)
  case Nil
  then show ?case by simp
next
  case (Cons e es)
  have "d \<in> set (activeIdsRef (drop_inactive e st))"
    using Cons.prems by (simp add: drop_inactive_active)
  from Cons.IH[OF this] show ?case
    using Cons.prems by (simp add: drop_inactive_retry_kept)
qed

lemma sync_drones_timers: "timers_set (sync_drones drones st) = timers_set st"
  by (simp add: sync_drones_def Let_def fold_drop_inactive_timers fold_ensure_connected_frame)

lemma sync_drones_retry_kept:
  assumes "d \<in> set (active_ids drones)"
  shows "retry_of (sync_drones drones st) d = retry_of st d"
proof -
  let ?st1 = "st\<lparr> activeIdsRef := js_set (active_ids drones) \<rparr>"
  let ?st2 = "fold ensure_connected (activeIdsRef ?st1) ?st1"
  have act: "d \<in> set (activeIdsRef ?st2)"
    using assms by (simp add: fold_ensure_connected_active js_set_def)
  have "retriesRef (fold drop_inactive (socketsRef ?st2) ?st2) d = retriesRef ?st2 d"
    using act by (rule fold_drop_inactive_retry_kept)
  also have "\<dots> = retriesRef st d"
    by (simp add: fold_ensure_connected_frame)
  finally show ?thesis
    by (simp add: retry_of_def sync_drones_def Let_def active_ids_def)
qed

lemma close_entry_timers: "timers_set (close_entry e st) = timers_set st"
  by (simp add: close_entry_def close_socket_frame split: option.splits)

lemma fold_close_entry_timers: "timers_set (fold close_entry es st) = timers_set st"
  by (induction es arbitrary: st) (simp_all add: close_entry_timers)

lemma tracks_unmount_timers: "timers_set (tracks_unmount st) = timers_set st"
  by (simp add: tracks_unmount_def Let_def fold_close_entry_timers)

lemma tracks_step_delays:
  "delays_for d (tracks_step ev st)
     = delays_for d st
       @ (if is_close_of st d ev \<and> d \<in> set (activeIdsRef st)
          then [min 10000 (1000 * 2 ^ retry_of st d)] else [])"
proof (cases ev)
  case (T_open ws)
  then show ?thesis
    by (simp add: is_close_of_def tracks_onopen_def set_ready_def delays_for_def
        split: option.splits)
next
  case (T_message ws now data)
  then show ?thesis
    by (simp add: is_close_of_def tracks_onmessage_frame delays_for_def split: option.splits)
next
  case (T_error ws)
  then show ?thesis
    by (simp add: is_close_of_def tracks_onerror_def close_socket_frame delays_for_def
        split: option.splits)
next
  case (T_close ws)
  show ?thesis
  proof (cases "entity_of st ws")
    case None
    then show ?thesis using T_close by (simp add: is_close_of_def)
  next
    case (Some e)
    let ?st = "set_ready ws CLOSED st"
    have r: "retry_of ?st e = retry_of st e" by (simp add: retry_of_def set_ready_frame)
    show ?thesis
    proof (cases "e \<in> set (activeIdsRef st)")
      case True
      then have a: "e \<in> set (activeIdsRef ?st)" by (simp add: set_ready_frame)
      show ?thesis using T_close Some tracks_onclose_effect(3)[OF a] r True
        by (auto simp: is_close_of_def set_ready_frame delays_for_def reconnect_delay_eq)
    next
      case False
      then have a: "e \<notin> set (activeIdsRef ?st)" by (simp add: set_ready_frame)
      show ?thesis using T_close Some tracks_onclose_effect(5)[OF a] False
        by (auto simp: is_close_of_def set_ready_frame delays_for_def)
    qed
  qed
next
  case (T_timer e)
  then show ?thesis
    by (simp add: is_close_of_def tracks_ontimer_def tracks_connect_frame delays_for_def)
next
  case (T_sync drones)
  then show ?thesis by (simp add: is_close_of_def delays_for_def sync_drones_timers)
next
  case T_unmount
  then show ?thesis by (simp add: is_close_of_def delays_for_def tracks_unmount_timers)
qed

lemma retry_of_facts:
  "retry_of tracks_init d = 0"
  "entity_of st ws = Some d \<Longrightarrow> retry_of (tracks_step (T_open ws) st) d = 0"
  by (simp_all add: retry_of_def tracks_init_def tracks_onopen_def)

lemma tracks_step_failing:
  assumes act: "d \<in> set (activeIdsRef st)" and ok: "keeps_failing st d ev"
  shows "d \<in> set (activeIdsRef (tracks_step ev st))
       \<and> retry_of (tracks_step ev st) d = retry_of st d + (if is_close_of st d ev then 1 else 0)
       \<and> delays_for d (tracks_step ev st)
           = delays_for d st @ (if is_close_of st d ev then [reconnect_delay (Suc (retry_of st d))] else [])"
proof (cases ev)
  case (T_open ws)
  then show ?thesis using ok act
    by (auto simp: keeps_failing_def is_close_of_def tracks_onopen_def set_ready_def
        retry_of_def delays_for_def split: option.splits)
next
  case (T_message ws now data)
  then show ?thesis using act
    by (auto simp: is_close_of_def tracks_onmessage_frame retry_of_def delays_for_def
        split: option.splits)
next
  case (T_error ws)
  then show ?thesis using act
    by (auto simp: is_close_of_def tracks_onerror_def close_socket_frame retry_of_def delays_for_def
        split: option.splits)
next
  case (T_close ws)
  show ?thesis
  proof (cases "entity_of st ws")
    case None
    then show ?thesis using T_close act by (simp add: is_close_of_def)
  next
    case (Some e)
    let ?st = "set_ready ws CLOSED st"
    have r: "retry_of ?st e = retry_of st e" by (simp add: retry_of_def set_ready_frame)
    show ?thesis
    proof (cases "e \<in> set (activeIdsRef st)")
      case True
      then have a: "e \<in> set (activeIdsRef ?st)" by (simp add: set_ready_frame)
      show ?thesis using T_close Some tracks_onclose_effect(2,3)[OF a] r act
        by (auto simp: is_close_of_def tracks_onclose_effect(1) set_ready_frame retry_of_def
            delays_for_def)
    next
      case False
      then have a: "e \<notin> set (activeIdsRef ?st)" by (simp add: set_ready_frame)
      have "e \<noteq> d" using False act by auto
      then show ?thesis using T_close Some tracks_onclose_effect(4,5)[OF a] act
        by (auto simp: is_close_of_def tracks_onclose_effect(1) set_ready_frame retry_of_def
            delays_for_def)
    qed
  qed
next
  case (T_timer e)
  then show ?thesis using act
    by (auto simp: is_close_of_def tracks_ontimer_def tracks_connect_frame retry_of_def
        delays_for_def)
next
  case (T_sync drones)
  then have "d \<in> set (active_ids drones)" using ok by (simp add: keeps_failing_def)
  then show ?thesis
    using T_sync sync_drones_active[of drones st] sync_drones_retry_kept[of d drones st]
    by (simp add: is_close_of_def delays_for_def sync_drones_timers)
next
  case T_unmount
  then show ?thesis using ok by (simp add: keeps_failing_def)
qed

lemma tracks_run_timers:
  "d \<in> set (activeIdsRef st) \<Longrightarrow> failures_of d events st \<Longrightarrow>
   delays_for d (tracks_run events st)
     = delays_for d st @ map reconnect_delay
         [Suc (retry_of st d) ..< Suc (retry_of st d + closes_of d events st)]"
proof (induction events arbitrary: st)
  case Nil
  then show ?case by (simp add: tracks_run_def)
next
  case (Cons ev events)
  have ok: "keeps_failing st d ev" and rest: "failures_of d events (tracks_step ev st)"
    using Cons.prems(2) by simp_all
  note step = tracks_step_failing[OF Cons.prems(1) ok]
  have act: "d \<in> set (activeIdsRef (tracks_step ev st))"
    using step by simp
  note ih = Cons.IH[OF act rest]
  have run: "tracks_run (ev # events) st = tracks_run events (tracks_step ev st)"
    by (simp add: tracks_run_def)
  define r where "r = retry_of st d"
  define c where "c = closes_of d events (tracks_step ev st)"
  show ?case
  proof (cases "is_close_of st d ev")
    case True
    have upt: "[Suc r ..< Suc (r + Suc c)] = Suc r # [Suc (Suc r) ..< Suc (Suc r + c)]"
      by (simp add: upt_conv_Cons)
    have r': "retry_of (tracks_step ev st) d = Suc r"
      using step True by (simp add: r_def)
    have t': "delays_for d (tracks_step ev st) = delays_for d st @ [reconnect_delay (Suc r)]"
      using step True by (simp add: r_def)
    have cnt: "closes_of d (ev # events) st = Suc c"
      using True by (simp add: c_def)
    show ?thesis
      unfolding run cnt
      using ih unfolding r' t' r_def[symmetric] c_def[symmetric] upt
      by simp
  next
    case False
    have r': "retry_of (tracks_step ev st) d = r"
      using step False by (simp add: r_def)
    have t': "delays_for d (tracks_step ev st) = delays_for d st"
      using step False by simp
    have cnt: "closes_of d (ev # events) st = c"
      using False by (simp add: c_def)
    show ?thesis
      unfolding run cnt
      using ih unfolding r' t' r_def[symmetric] c_def[symmetric]
      by simp
  qed
qed

lemma ex_switch_timers: "timers ex_switch = [1000, 2000, 4000, 8000]"
  by (simp add: ex_switch_def live_run_def subscribe_def live_init_def connect_def onclose_def
      cleanup_def reconnect_delay_def RECONNECT_MAX_DELAY_MS_def RECONNECT_BASE_DELAY_MS_def
      Let_def)

lemma ex_kept_state:
  "tracks_run [T_sync [ex_drone], T_close 0, T_sync [ex_offline], T_sync [ex_drone]] tracks_init
     = tracks_init\<lparr> socketsRef := [(''D1'', Some 1)], retriesRef := [''D1'' \<mapsto> 1],
         activeIdsRef := [''D1''], readyStates := [CLOSED, CONNECTING],
         sockets_opened := [''D1'', ''D1''], timers_set := [(''D1'', 1000)] \<rparr>"
  by (simp add: tracks_run_def tracks_init_def sync_drones_def js_set_def ex_drone_def
      ex_offline_def ensure_connected_def tracks_connect_def drop_inactive_def entity_of_def
      set_ready_def tracks_onclose_def reconnect_delay_def RECONNECT_MAX_DELAY_MS_def
      RECONNECT_BASE_DELAY_MS_def Let_def)

lemma ex_discarded_state:
  "tracks_run [T_sync [ex_drone], T_close 0, T_timer ''D1'', T_sync [ex_offline], T_close 1,
      T_sync [ex_drone]] tracks_init
     = tracks_init\<lparr> socketsRef := [(''D1'', Some 2)], retriesRef := Map.empty,
         activeIdsRef := [''D1''], readyStates := [CLOSED, CLOSED, CONNECTING],
         sockets_opened := [''D1'', ''D1'', ''D1''], timers_set := [(''D1'', 1000)] \<rparr>"
  by (simp add: tracks_run_def tracks_init_def sync_drones_def js_set_def ex_drone_def
      ex_offline_def ensure_connected_def tracks_connect_def drop_inactive_def entity_of_def
      set_ready_def tracks_onclose_def tracks_ontimer_def close_socket_def reconnect_delay_def
      RECONNECT_MAX_DELAY_MS_def RECONNECT_BASE_DELAY_MS_def Let_def)

text \<open>
  Claim C5 as stated fails: the delay after a failure is not a function of the failure's
  place in a run of consecutive failures. In the live-telemetry hook the first failure of
  the connection to a newly observed entity waits 8000 ms when the entity observed before
  had failed three times. In the track hook an entity that fails, goes offline, comes back
  and fails again waits 2000 ms after the second failure in one run and 1000 ms in the
  other, the two runs differing only in whether the reconnect timer had fired before the
  entity went offline.
\<close>

theorem backoff_restart_counterexample:
  "timers ex_switch = [1000, 2000, 4000, 8000]
   \<and> delays_for ''D1'' (tracks_run ex_kept tracks_init) = [1000, 2000]
   \<and> delays_for ''D1'' (tracks_run ex_discarded tracks_init) = [1000, 1000]"
proof -
  have kept: "tracks_run ex_kept tracks_init
      = tracks_step (T_close 1)
          (tracks_run [T_sync [ex_drone], T_close 0, T_sync [ex_offline], T_sync [ex_drone]] tracks_init)"
    by (simp add: ex_kept_def tracks_run_def)
  have disc: "tracks_run ex_discarded tracks_init
      = tracks_step (T_close 2)
          (tracks_run [T_sync [ex_drone], T_close 0, T_timer ''D1'', T_sync [ex_offline], T_close 1,
             T_sync [ex_drone]] tracks_init)"
    by (simp add: ex_discarded_def tracks_run_def)
  have a: "delays_for ''D1'' (tracks_run ex_kept tracks_init) = [1000, 2000]"
    unfolding kept ex_kept_state
    by (simp add: delays_for_def tracks_init_def entity_of_def set_ready_def tracks_onclose_def
        reconnect_delay_def RECONNECT_MAX_DELAY_MS_def RECONNECT_BASE_DELAY_MS_def Let_def)
  have b: "delays_for ''D1'' (tracks_run ex_discarded tracks_init) = [1000, 1000]"
    unfolding disc ex_discarded_state
    by (simp add: delays_for_def tracks_init_def entity_of_def set_ready_def tracks_onclose_def
        reconnect_delay_def RECONNECT_MAX_DELAY_MS_def RECONNECT_BASE_DELAY_MS_def Let_def)
  show ?thesis using ex_switch_timers a b by simp
qed

text \<open>
  Claim C5, amended. The retry count of the live-telemetry hook is zero at the start and
  after every open, and survives a change of the observed entity. For every state and
  every run of events of that hook, the delays scheduled are those of
  \<open>backoff_schedule\<close>: each close before cleanup schedules
  \<open>min 10000 (1000 * 2 ^ (n - 1))\<close> ms, \<open>n\<close> being one more than the number of closes
  since the last open (counted from the retry count at the start), and a close after
  cleanup schedules nothing. In particular, over a run without open and cleanup the closes
  are attempts \<open>k + 1\<close>, \<open>k + 2\<close>, and so on, for the retry count \<open>k\<close> at its start.
  In the track hook the retry count of an entity is zero at the start and after an open
  of one of its sockets; every event schedules for the entity either nothing or, when it
  is the close of one of its sockets while the entity is active,
  \<open>min 10000 (1000 * 2 ^ k)\<close> ms for its retry count \<open>k\<close>; and over a run in which the
  entity stays active and none of its sockets opens, its closes are attempts \<open>k + 1\<close>,
  \<open>k + 2\<close>, and so on. Attempts 1 to 6 give 1000, 2000, 4000, 8000, 10000 and 10000 ms.
\<close>

theorem backoff_delays:
  "retryCountRef (live_init currentTimeMs) = 0
   \<and> retryCountRef (onopen st) = 0
   \<and> retryCountRef (subscribe observed st) = retryCountRef st
   \<and> timers (live_run droneId events st)
       = timers st @ backoff_schedule (retryCountRef st) (cancelled st) events
   \<and> (\<not> cancelled st \<and> failure_run events \<longrightarrow>
        timers (live_run droneId events st)
          = timers st
            @ map (\<lambda>n. min 10000 (1000 * 2 ^ (n - 1)))
                [Suc (retryCountRef st) ..< Suc (retryCountRef st + count_list events E_close)])
   \<and> retry_of tracks_init droneId = 0
   \<and> (entity_of ts ws = Some droneId \<longrightarrow> retry_of (tracks_step (T_open ws) ts) droneId = 0)
   \<and> delays_for droneId (tracks_step tev ts)
       = delays_for droneId ts
         @ (if is_close_of ts droneId tev \<and> droneId \<in> set (activeIdsRef ts)
            then [min 10000 (1000 * 2 ^ retry_of ts droneId)] else [])
   \<and> (droneId \<in> set (activeIdsRef ts) \<and> failures_of droneId tevents ts \<longrightarrow>
        delays_for droneId (tracks_run tevents ts)
          = delays_for droneId ts
            @ map (\<lambda>n. min 10000 (1000 * 2 ^ (n - 1)))
                [Suc (retry_of ts droneId) ..< Suc (retry_of ts droneId + closes_of droneId tevents ts)])
   \<and> map reconnect_delay [1, 2, 3, 4, 5, 6] = [1000, 2000, 4000, 8000, 10000, 10000]"
proof -
  have rd: "reconnect_delay = (\<lambda>n. min 10000 (1000 * 2 ^ (n - 1)))"
    by (rule ext) (simp add: reconnect_delay_def RECONNECT_MAX_DELAY_MS_def RECONNECT_BASE_DELAY_MS_def)
  have live: "\<not> cancelled st \<and> failure_run events \<longrightarrow>
      timers (live_run droneId events st)
        = timers st @ map reconnect_delay
            [Suc (retryCountRef st) ..< Suc (retryCountRef st + count_list events E_close)]"
    using live_run_timers[of st events droneId] by auto
  have mgr: "droneId \<in> set (activeIdsRef ts) \<and> failures_of droneId tevents ts \<longrightarrow>
      delays_for droneId (tracks_run tevents ts)
        = delays_for droneId ts @ map reconnect_delay
            [Suc (retry_of ts droneId) ..< Suc (retry_of ts droneId + closes_of droneId tevents ts)]"
    using tracks_run_timers[of droneId ts tevents] by auto
  have vals: "map reconnect_delay [1, 2, 3, 4, 5, 6] = [1000, 2000, 4000, 8000, 10000, 10000]"
    by (simp add: rd)
  have opn: "entity_of ts ws = Some droneId \<longrightarrow> retry_of (tracks_step (T_open ws) ts) droneId = 0"
    using retry_of_facts(2) by blast
  note gen = live_run_schedule[of droneId events st] tracks_step_delays[of droneId tev ts]
    retry_count_facts(1)[of currentTimeMs] retry_count_facts(2)[of st]
    retry_count_facts(3)[of observed st] retry_of_facts(1)[of droneId]
  show ?thesis using live mgr vals opn gen unfolding rd by blast
qed

lemma ex_live_hyps:
  "\<not> cancelled (subscribe (Some ''D1'') (live_init 0))"
  "retryCountRef (subscribe (Some ''D1'') (live_init 0)) = 0"
  "timers (subscribe (Some ''D1'') (live_init 0)) = []"
  "failure_run ex_live_failures"
  "count_list ex_live_failures E_close = 6"
  by (simp_all add: subscribe_def connect_def live_init_def failure_run_def ex_live_failures_def)

lemma ex_tracks_hyps:
  "''D1'' \<in> set (activeIdsRef (sync_drones [ex_drone] tracks_init))"
  "retry_of (sync_drones [ex_drone] tracks_init) ''D1'' = 0"
  "delays_for ''D1'' (sync_drones [ex_drone] tracks_init) = []"
  "failures_of ''D1'' ex_tracks_failures (sync_drones [ex_drone] tracks_init)"
  "closes_of ''D1'' ex_tracks_failures (sync_drones [ex_drone] tracks_init) = 3"
  unfolding ex_sync
  by (simp_all add: tracks_init_def retry_of_def delays_for_def ex_tracks_failures_def
      keeps_failing_def is_close_of_def entity_of_def set_ready_def tracks_onclose_def
      tracks_ontimer_def tracks_connect_def tracks_onerror_def close_socket_def Let_def
      reconnect_delay_def sync_drones_def js_set_def ex_drone_def active_ids_def
      ensure_connected_def drop_inactive_def)

text \<open>
  Six closes in a row of the live-telemetry subscription, and three of an active entity of
  the track hook with timer and error events and a refresh of the drone list in between.
\<close>

theorem backoff_delays_witness:
  "\<not> cancelled (subscribe (Some ''D1'') (live_init 0))
   \<and> failure_run ex_live_failures
   \<and> timers (live_run ''D1'' ex_live_failures (subscribe (Some ''D1'') (live_init 0)))
       = [1000, 2000, 4000, 8000, 10000, 10000]
   \<and> ''D1'' \<in> set (activeIdsRef (sync_drones [ex_drone] tracks_init))
   \<and> failures_of ''D1'' ex_tracks_failures (sync_drones [ex_drone] tracks_init)
   \<and> delays_for ''D1'' (tracks_run ex_tracks_failures (sync_drones [ex_drone] tracks_init))
       = [1000, 2000, 4000]
   \<and> entity_of (sync_drones [ex_drone] tracks_init) 0 = Some ''D1''
   \<and> retry_of (tracks_step (T_open 0) (sync_drones [ex_drone] tracks_init)) ''D1'' = 0"
proof -
  let ?st = "subscribe (Some ''D1'') (live_init 0)"
  let ?ts = "sync_drones [ex_drone] tracks_init"
  have e: "entity_of ?ts 0 = Some ''D1''"
    unfolding ex_sync by (simp add: entity_of_def tracks_init_def)
  note inst = backoff_delays[of 0 ?st "Some ''D1''" "''D1''" ex_live_failures ?ts 0 "T_open 0"
      ex_tracks_failures]
  have live: "timers (live_run ''D1'' ex_live_failures ?st)
      = timers ?st @ map (\<lambda>n. min 10000 (1000 * 2 ^ (n - 1)))
          [Suc (retryCountRef ?st) ..< Suc (retryCountRef ?st + count_list ex_live_failures E_close)]"
    using inst ex_live_hyps(1,4) by blast
  have mgr: "delays_for ''D1'' (tracks_run ex_tracks_failures ?ts)
      = delays_for ''D1'' ?ts @ map (\<lambda>n. min 10000 (1000 * 2 ^ (n - 1)))
          [Suc (retry_of ?ts ''D1'') ..< Suc (retry_of ?ts ''D1'' + closes_of ''D1'' ex_tracks_failures ?ts)]"
    using inst ex_tracks_hyps(1,4) by blast
  have opn: "retry_of (tracks_step (T_open 0) ?ts) ''D1'' = 0"
    using inst e by blast
  have l: "timers (live_run ''D1'' ex_live_failures ?st) = [1000, 2000, 4000, 8000, 10000, 10000]"
    unfolding live by (simp add: ex_live_hyps upt_rec)
  have m: "delays_for ''D1'' (tracks_run ex_tracks_failures ?ts) = [1000, 2000, 4000]"
    unfolding mgr by (simp add: ex_tracks_hyps upt_rec)
  show ?thesis
    using l m e opn ex_live_hyps(1,4) ex_tracks_hyps(1,4) by blast
qed

subsection \<open>Reconnect timers of the track hook after teardown\<close>

text \<open>
  In the track hook a reconnect timer that fires for an entity outside the active set
  changes nothing: no socket is opened. That is the case after the drone list no longer
  holds the entity as active, and after the hook is unmounted.
\<close>

theorem timer_after_teardown_noop:
  "(droneId \<notin> set (activeIdsRef st) \<longrightarrow> tracks_step (T_timer droneId) st = st)
   \<and> (droneId \<notin> set (active_ids drones) \<longrightarrow>
        tracks_step (T_timer droneId) (sync_drones drones st) = sync_drones drones st)
   \<and> tracks_step (T_timer droneId) (tracks_unmount st) = tracks_unmount st"
  by (simp add: tracks_ontimer_def sync_drones_active tracks_unmount_active)

lemma ex_teardown:
  "tracks_run [T_close 0, T_sync [ex_offline]] (sync_drones [ex_drone] tracks_init)
     = tracks_init\<lparr> socketsRef := [(''D1'', None)], retriesRef := [''D1'' \<mapsto> 1],
         activeIdsRef := [], readyStates := [CLOSED], sockets_opened := [''D1''],
         timers_set := [(''D1'', 1000)] \<rparr>"
  unfolding ex_sync
  by (simp add: tracks_run_def tracks_init_def entity_of_def set_ready_def tracks_onclose_def
      Let_def reconnect_delay_def RECONNECT_MAX_DELAY_MS_def RECONNECT_BASE_DELAY_MS_def
      sync_drones_def js_set_def ex_offline_def drop_inactive_def)

text \<open>
  The socket of an active entity closes, which sets a timer; the entity goes offline; the
  timer fires and no second socket is opened.
\<close>

theorem timer_after_teardown_noop_witness:
  "''D1'' \<notin> set (activeIdsRef (tracks_run [T_close 0, T_sync [ex_offline]] (sync_drones [ex_drone] tracks_init)))
   \<and> timers_set (tracks_run [T_close 0, T_sync [ex_offline]] (sync_drones [ex_drone] tracks_init))
       = [(''D1'', 1000)]
   \<and> sockets_opened (tracks_step (T_timer ''D1'')
        (tracks_run [T_close 0, T_sync [ex_offline]] (sync_drones [ex_drone] tracks_init))) = [''D1'']
   \<and> ''D1'' \<notin> set (active_ids [ex_offline])"
proof -
  let ?st = "tracks_run [T_close 0, T_sync [ex_offline]] (sync_drones [ex_drone] tracks_init)"
  have a: "''D1'' \<notin> set (activeIdsRef ?st)"
    unfolding ex_teardown by simp
  have b: "timers_set ?st = [(''D1'', 1000)]" "sockets_opened ?st = [''D1'']"
    unfolding ex_teardown by simp_all
  have c: "''D1'' \<notin> set (active_ids [ex_offline])"
    by (simp add: active_ids_def ex_offline_def)
  from timer_after_teardown_noop[of "''D1''" ?st "[ex_offline]"] a
  have "tracks_step (T_timer ''D1'') ?st = ?st" by blast
  then show ?thesis using a b c by simp
qed

end
